theory Spec2Isabelle
  imports Main
begin

section \<open>The board-game club's write path over a typed store\<close>

text \<open>
  The development embeds \<^verbatim>\<open>deliverables/write_funcs.py\<close> and
  \<^verbatim>\<open>deliverables/graph_funcs.py\<close>. The Redis database is a record with one field per
  key template of \<^verbatim>\<open>keys.py\<close>: a template with a parameter is a function or a map from
  the parameter, a Redis set is a set, a Redis list is a list, a string key that may be
  missing is an option. Redis deletes a set or list key when it becomes empty, so an
  absent set is the empty set. Two templates never denote the same key here; identifiers
  crafted to make two templates collide are outside the model, as are key expiry and the
  64-bit range of Redis counters.
\<close>

subsection \<open>Identifiers, errors and outcomes\<close>

type_synonym pid = string
type_synonym gid = string
type_synonym fid = string
type_synonym eco = string
type_synonym seq = string

text \<open>
  The exceptions a call can end in: the application's own
  \<^verbatim>\<open>BoardGameClubNotUniqueError\<close> (a subclass of \<^verbatim>\<open>BoardGameClubWriteError\<close> and of
  \<^verbatim>\<open>BoardGameClubRootError\<close>), the JSON library's \<^verbatim>\<open>JSONDecodeError\<close>, Python's
  \<^verbatim>\<open>ValueError\<close> (unpacking the parts of a leaderboard entry), the Redis client's
  \<^verbatim>\<open>ResponseError\<close> (a command sent without its arguments) and \<^verbatim>\<open>DataError\<close> (a
  \<^verbatim>\<open>None\<close> handed over as a value), and Python's \<^verbatim>\<open>TypeError\<close> (\<^verbatim>\<open>int(None)\<close> on a
  counter that is not there).
\<close>

datatype error =
  BoardGameClubNotUniqueError | JSONDecodeError | ValueError | ResponseError | TypeError
  | DataError

text \<open>The classes of \<^verbatim>\<open>models.py\<close> below \<^verbatim>\<open>BoardGameClubRootError\<close>.\<close>

fun is_BoardGameClubRootError :: "error \<Rightarrow> bool" where
  "is_BoardGameClubRootError BoardGameClubNotUniqueError = True"
| "is_BoardGameClubRootError JSONDecodeError = False"
| "is_BoardGameClubRootError ValueError = False"
| "is_BoardGameClubRootError ResponseError = False"
| "is_BoardGameClubRootError TypeError = False"
| "is_BoardGameClubRootError DataError = False"

datatype outcome = Ok | Raise error

subsection \<open>Redis primitives\<close>

text \<open>\<^verbatim>\<open>INCR key\<close>: a missing key counts as 0; the new value is returned.\<close>

definition incr :: "('k \<rightharpoonup> int) \<Rightarrow> 'k \<Rightarrow> int" where
  "incr m k = (case m k of None \<Rightarrow> 1 | Some c \<Rightarrow> c + 1)"

text \<open>\<^verbatim>\<open>LREM key 0 value\<close> removes every occurrence of the value.\<close>

definition lrem :: "'a list \<Rightarrow> 'a \<Rightarrow> 'a list" where
  "lrem xs v = filter (\<lambda>x. x \<noteq> v) xs"

text \<open>
  \<^verbatim>\<open>LINSERT key BEFORE pivot value\<close> inserts before the first occurrence of the pivot and
  leaves the list alone when the pivot is absent.
\<close>

fun linsert_before :: "'a list \<Rightarrow> 'a \<Rightarrow> 'a \<Rightarrow> 'a list" where
  "linsert_before [] pivot v = []"
| "linsert_before (x # xs) pivot v =
     (if x = pivot then v # x # xs else x # linsert_before xs pivot v)"

definition rpush :: "'a list \<Rightarrow> 'a \<Rightarrow> 'a list" where
  "rpush xs v = xs @ [v]"

text \<open>\<^verbatim>\<open>LTRIM key 0 stop\<close> keeps the entries at the indices 0 to stop.\<close>

definition ltrim0 :: "'a list \<Rightarrow> nat \<Rightarrow> 'a list" where
  "ltrim0 xs stop = take (Suc stop) xs"

subsection \<open>The bounded leaderboard\<close>

text \<open>
  A leaderboard entry is the string \<^verbatim>\<open>f"{pid}:{score}"\<close>. The decimal form of the score
  holds no colon, so the string determines the pair and the pair stands for it. Reading
  an entry back, \<^verbatim>\<open>_, score = item.split(":")\<close> unpacks exactly two parts: it raises
  \<^verbatim>\<open>ValueError\<close> when the player id itself holds a colon.
\<close>

type_synonym entry = "pid \<times> int"

definition split_entry :: "entry \<Rightarrow> error + int" where
  "split_entry item = (if CHR '':'' \<in> set (fst item) then Inl ValueError else Inr (snd item))"

text \<open>The scan for the insert position: the first entry whose score the new score reaches.\<close>

fun find_insert_before :: "entry list \<Rightarrow> int \<Rightarrow> error + entry option" where
  "find_insert_before [] new_score = Inr None"
| "find_insert_before (item # items) new_score =
     (case split_entry item of
        Inl e \<Rightarrow> Inl e
      | Inr score \<Rightarrow>
          if new_score \<ge> score then Inr (Some item) else find_insert_before items new_score)"

text \<open>
  \<^verbatim>\<open>__update_top_list\<close> on the list behind \<^verbatim>\<open>list_key\<close>. The first pipeline (the removal of
  the stale entry and the read) is executed before the scan, so a scan that raises leaves
  the list with the stale entry removed and nothing inserted.
\<close>

definition update_top_entries :: "entry list \<Rightarrow> pid \<Rightarrow> int \<Rightarrow> outcome \<times> entry list" where
  "update_top_entries lst p new_score =
     (let old_tuple = (p, new_score - 1);
          new_tuple = (p, new_score);
          items = lrem lst old_tuple
      in case find_insert_before items new_score of
           Inl e \<Rightarrow> (Raise e, items)
         | Inr None \<Rightarrow> (Ok, ltrim0 (rpush items new_tuple) 9)
         | Inr (Some insert_before) \<Rightarrow>
             (Ok, ltrim0 (linsert_before items insert_before new_tuple) 9))"

text \<open>An entry stands ahead of another when it occurs before the other's first occurrence.\<close>

definition ahead_of :: "'a list \<Rightarrow> 'a \<Rightarrow> 'a \<Rightarrow> bool" where
  "ahead_of xs a b = (a \<in> set (takeWhile (\<lambda>x. x \<noteq> b) xs))"

subsection \<open>Records of the input and of the store\<close>

text \<open>
  \<^verbatim>\<open>models.py\<close>: the three typed dictionaries. The move set of a game record is a Python
  list or the text of one. The number of turns is taken as the integer it denotes
  (the CSV loader hands over its decimal text).
\<close>

record player =
  user_id :: pid
  email :: string

record schedule =
  sched_game_id :: gid
  player_1 :: pid
  player_2 :: pid

datatype moveset_value = MovesetList "string list" | MovesetStr string

record game_record =
  game_id :: gid
  moveset :: moveset_value
  winner :: string
  victory_status :: string
  number_of_turns :: int
  white_player_id :: pid
  black_player_id :: pid
  opening_eco :: eco

text \<open>The seven keys that one \<^verbatim>\<open>MSET\<close> of \<^verbatim>\<open>__update_game_keys\<close> writes for a game.\<close>

record game_keys =
  game_winner :: string
  game_victory_status :: string
  game_turns :: int
  game_checks :: nat
  game_white_player :: pid
  game_black_player :: pid
  game_opening_eco :: eco

record store =
  global_players_ids :: "pid set"
  global_players_emails :: "string set"
  global_games_ids :: "gid set"
  player_email :: "pid \<rightharpoonup> string"
  player_wins :: "pid \<rightharpoonup> int"
  player_losses :: "pid \<rightharpoonup> int"
  player_draws :: "pid \<rightharpoonup> int"
  player_games_list :: "pid \<Rightarrow> gid list"
  player_games_set :: "pid \<Rightarrow> gid set"
  player_opponents :: "pid \<Rightarrow> pid set"
  player_opening_count :: "pid \<times> eco \<rightharpoonup> int"
  player_most_freq_opening :: "pid \<rightharpoonup> eco"
  player_most_freq_opening_count :: "pid \<rightharpoonup> int"
  player_friend_group :: "pid \<rightharpoonup> fid"
  player_scheduled_games :: "pid \<Rightarrow> gid list"
  player_scheduled_game_opponent :: "pid \<times> gid \<rightharpoonup> pid"
  game_attrs :: "gid \<rightharpoonup> game_keys"
  game_moves :: "gid \<Rightarrow> string list"
  global_friend_group :: "fid \<Rightarrow> pid set"
  global_seq_games :: "seq \<Rightarrow> gid set"
  global_seq_count :: "seq \<rightharpoonup> int"
  global_opening_count :: "eco \<rightharpoonup> int"
  analytics_top_wins :: "entry list"
  analytics_top_losses :: "entry list"
  analytics_most_freq_opening :: "eco option"
  analytics_most_freq_opening_count :: "int option"
  analytics_shortest_game :: "gid option"
  analytics_shortest_game_turns :: "int option"
  analytics_least_common_seqs :: "seq set"
  analytics_least_common_seq_count :: "int option"
  analytics_most_common_seqs :: "seq set"
  analytics_most_common_seq_count :: "int option"

text \<open>The database before the first write.\<close>

definition empty_store :: store where
  "empty_store =
     \<lparr> global_players_ids = {}, global_players_emails = {}, global_games_ids = {},
       player_email = Map.empty, player_wins = Map.empty, player_losses = Map.empty,
       player_draws = Map.empty, player_games_list = (\<lambda>_. []), player_games_set = (\<lambda>_. {}),
       player_opponents = (\<lambda>_. {}), player_opening_count = Map.empty,
       player_most_freq_opening = Map.empty, player_most_freq_opening_count = Map.empty,
       player_friend_group = Map.empty, player_scheduled_games = (\<lambda>_. []),
       player_scheduled_game_opponent = Map.empty, game_attrs = Map.empty,
       game_moves = (\<lambda>_. []), global_friend_group = (\<lambda>_. {}), global_seq_games = (\<lambda>_. {}),
       global_seq_count = Map.empty, global_opening_count = Map.empty,
       analytics_top_wins = [], analytics_top_losses = [],
       analytics_most_freq_opening = None, analytics_most_freq_opening_count = None,
       analytics_shortest_game = None, analytics_shortest_game_turns = None,
       analytics_least_common_seqs = {}, analytics_least_common_seq_count = None,
       analytics_most_common_seqs = {}, analytics_most_common_seq_count = None \<rparr>"

text \<open>A call that raised stops the calls after it; the store stays as the call left it.\<close>

definition and_then :: "outcome \<times> store \<Rightarrow> (store \<Rightarrow> outcome \<times> store) \<Rightarrow> outcome \<times> store" where
  "and_then r f = (case r of (Ok, s) \<Rightarrow> f s | (Raise e, s) \<Rightarrow> (Raise e, s))"

subsection \<open>Players and schedules\<close>

definition assert_player_is_new :: "store \<Rightarrow> pid \<Rightarrow> outcome \<times> store" where
  "assert_player_is_new s p =
     (if p \<in> global_players_ids s then (Raise BoardGameClubNotUniqueError, s)
      else (Ok, s\<lparr>global_players_ids := insert p (global_players_ids s)\<rparr>))"

definition add_player :: "store \<Rightarrow> player \<Rightarrow> outcome \<times> store" where
  "add_player s0 pl =
     and_then (assert_player_is_new s0 (user_id pl)) (\<lambda>s.
       let p = user_id pl;
           s = s\<lparr> player_email := (player_email s)(p \<mapsto> email pl),
                 player_wins := (player_wins s)(p \<mapsto> 0),
                 player_losses := (player_losses s)(p \<mapsto> 0),
                 player_draws := (player_draws s)(p \<mapsto> 0),
                 player_most_freq_opening_count := (player_most_freq_opening_count s)(p \<mapsto> 0) \<rparr>
       in (Ok, s\<lparr>global_players_emails := insert (email pl) (global_players_emails s)\<rparr>))"

definition assert_game_is_new :: "store \<Rightarrow> gid \<Rightarrow> outcome \<times> store" where
  "assert_game_is_new s g =
     (if g \<in> global_games_ids s then (Raise BoardGameClubNotUniqueError, s)
      else (Ok, s\<lparr>global_games_ids := insert g (global_games_ids s)\<rparr>))"

text \<open>\<^verbatim>\<open>LPUSH\<close> then \<^verbatim>\<open>LTRIM 0 199\<close> on a player's list of scheduled games.\<close>

definition push_scheduled :: "store \<Rightarrow> pid \<Rightarrow> gid \<Rightarrow> store" where
  "push_scheduled s p g =
     s\<lparr>player_scheduled_games :=
         (player_scheduled_games s)(p := ltrim0 (g # player_scheduled_games s p) 199)\<rparr>"

definition add_schedule :: "store \<Rightarrow> schedule \<Rightarrow> outcome \<times> store" where
  "add_schedule s0 sc =
     and_then (assert_game_is_new s0 (sched_game_id sc)) (\<lambda>s.
       let g = sched_game_id sc;
           s = s\<lparr>player_scheduled_game_opponent :=
                   (player_scheduled_game_opponent s)
                     ((player_1 sc, g) \<mapsto> player_2 sc, (player_2 sc, g) \<mapsto> player_1 sc)\<rparr>;
           s = push_scheduled s (player_1 sc) g
       in (Ok, push_scheduled s (player_2 sc) g))"


subsection \<open>Friend groups\<close>

text \<open>
  \<^verbatim>\<open>__new_fid\<close> draws \<^verbatim>\<open>uuid.uuid4().hex\<close> until it meets an id no friend group has. The
  values the generator hands out during the call are the argument \<open>uuids\<close>; the loop that
  never meets a free id is the result \<open>None\<close>.
\<close>

fun new_fid :: "fid list \<Rightarrow> store \<Rightarrow> fid option" where
  "new_fid [] s = None"
| "new_fid (u # uuids) s =
     (if global_friend_group s u \<noteq> {} then new_fid uuids s else Some u)"

text \<open>Python's truth value of an optional string: \<^verbatim>\<open>None\<close> and \<^verbatim>\<open>""\<close> are false.\<close>

fun truthy :: "string option \<Rightarrow> bool" where
  "truthy None = False"
| "truthy (Some v) = (v \<noteq> [])"

text \<open>
  \<^verbatim>\<open>__update_friend_groups\<close>. In the second case \<^verbatim>\<open>fid1 or fid2\<close> and
  \<^verbatim>\<open>pid2 if fid1 else pid1\<close> go by truth value: were the first player's group id the
  empty string, the group id would be \<^verbatim>\<open>None\<close> and the pipeline would refuse to encode it
  before sending anything.
\<close>

definition update_friend_groups ::
  "fid list \<Rightarrow> store \<Rightarrow> pid \<Rightarrow> pid \<Rightarrow> (outcome \<times> store) option" where
  "update_friend_groups uuids s pid1 pid2 =
     (let fid1 = player_friend_group s pid1;
          fid2 = player_friend_group s pid2
      in if fid1 = None \<and> fid2 = None then
           (case new_fid uuids s of
              None \<Rightarrow> None
            | Some g \<Rightarrow>
                Some (Ok, s\<lparr> global_friend_group :=
                               (global_friend_group s)(g := global_friend_group s g \<union> {pid1, pid2}),
                             player_friend_group :=
                               (player_friend_group s)(pid1 \<mapsto> g, pid2 \<mapsto> g) \<rparr>))
         else if fid1 = None \<or> fid2 = None then
           (case (if truthy fid1 then fid1 else fid2) of
              None \<Rightarrow> Some (Raise DataError, s)
            | Some g \<Rightarrow>
                let newcomer = (if truthy fid1 then pid2 else pid1)
                in Some (Ok, s\<lparr> global_friend_group :=
                                    (global_friend_group s)
                                      (g := insert newcomer (global_friend_group s g)),
                                  player_friend_group :=
                                    (player_friend_group s)(newcomer \<mapsto> g) \<rparr>))
         else if fid1 = fid2 then Some (Ok, s)
         else
           (let f1 = the fid1; f2 = the fid2;
                size1 = card (global_friend_group s f1);
                size2 = card (global_friend_group s f2);
                (big, small) = (if size1 \<ge> size2 then (f1, f2) else (f2, f1));
                members = global_friend_group s small
            in if members \<noteq> {} then
                 Some (Ok, s\<lparr> global_friend_group :=
                                ((global_friend_group s)
                                   (big := global_friend_group s big \<union> members))(small := {}),
                              player_friend_group :=
                                (\<lambda>m. if m \<in> members then Some big else player_friend_group s m) \<rparr>)
               else Some (Ok, s)))"

text \<open>
  \<^verbatim>\<open>get_friends_of_friends\<close> of \<^verbatim>\<open>graph_funcs.py\<close>. The Python list it returns enumerates
  this set once, in no particular order.
\<close>

definition get_friends_of_friends :: "store \<Rightarrow> pid \<Rightarrow> pid set" where
  "get_friends_of_friends s p =
     (case player_friend_group s p of
        None \<Rightarrow> {}
      | Some f \<Rightarrow> (global_friend_group s f - player_opponents s p) - {p})"

subsection \<open>Move sets and three-move sequences\<close>

definition find_number_of_checks :: "string list \<Rightarrow> nat" where
  "find_number_of_checks moves = length (filter (\<lambda>move. CHR ''+'' \<in> set move) moves)"

text \<open>\<^verbatim>\<open>moveset.replace("'", '"')\<close>\<close>

definition replace_quotes :: "string \<Rightarrow> string" where
  "replace_quotes str = map (\<lambda>c. if c = CHR 0x27 then CHR 0x22 else c) str"

text \<open>
  \<^verbatim>\<open>json.loads\<close> belongs to Python's library and is a parameter \<open>json_loads\<close>: \<open>None\<close> when it
  raises \<^verbatim>\<open>JSONDecodeError\<close>, the list of strings otherwise. A text that is valid JSON for
  something other than a list of strings is outside the model.
\<close>

definition parse_moveset :: "(string \<Rightarrow> string list option) \<Rightarrow> moveset_value \<Rightarrow> error + string list" where
  "parse_moveset json_loads ms =
     (case ms of
        MovesetList moves \<Rightarrow> Inr moves
      | MovesetStr str \<Rightarrow>
          (case json_loads (replace_quotes str) of
             None \<Rightarrow> Inl JSONDecodeError
           | Some moves \<Rightarrow> Inr moves))"

text \<open>\<^verbatim>\<open>sep.join(parts)\<close> and the slice \<^verbatim>\<open>xs[a:b]\<close> for \<open>0 \<le> a \<le> b\<close>.\<close>

fun join :: "string \<Rightarrow> string list \<Rightarrow> string" where
  "join sep [] = []"
| "join sep [x] = x"
| "join sep (x # y # ys) = x @ sep @ join sep (y # ys)"

definition slice :: "'a list \<Rightarrow> nat \<Rightarrow> nat \<Rightarrow> 'a list" where
  "slice xs a b = take (b - a) (drop a xs)"

definition find_all_three_move_sequences :: "string list \<Rightarrow> seq list" where
  "find_all_three_move_sequences moves =
     map (\<lambda>i. join '','' (slice moves (i - 2) (i + 1))) [2 ..< length moves]"


subsection \<open>Player keys and game keys\<close>

datatype list_key = ANALYTICS_TOP_WINS | ANALYTICS_TOP_LOSSES

definition update_top_list :: "store \<Rightarrow> list_key \<Rightarrow> pid \<Rightarrow> int \<Rightarrow> outcome \<times> store" where
  "update_top_list s list_key p new_score =
     (case list_key of
        ANALYTICS_TOP_WINS \<Rightarrow>
          (let (r, lst) = update_top_entries (analytics_top_wins s) p new_score
           in (r, s\<lparr>analytics_top_wins := lst\<rparr>))
      | ANALYTICS_TOP_LOSSES \<Rightarrow>
          (let (r, lst) = update_top_entries (analytics_top_losses s) p new_score
           in (r, s\<lparr>analytics_top_losses := lst\<rparr>)))"

text \<open>The first part of \<^verbatim>\<open>__update_player_keys\<close>: the result counter and its leaderboard.\<close>

definition update_result_keys :: "store \<Rightarrow> game_record \<Rightarrow> string \<Rightarrow> pid \<Rightarrow> string \<Rightarrow> outcome \<times> store" where
  "update_result_keys s g player_color player_id opponent_color =
     (if winner g = player_color then
        (let wins = incr (player_wins s) player_id
         in update_top_list (s\<lparr>player_wins := (player_wins s)(player_id \<mapsto> wins)\<rparr>)
              ANALYTICS_TOP_WINS player_id wins)
      else if winner g = opponent_color then
        (let losses = incr (player_losses s) player_id
         in update_top_list (s\<lparr>player_losses := (player_losses s)(player_id \<mapsto> losses)\<rparr>)
              ANALYTICS_TOP_LOSSES player_id losses)
      else
        (Ok, s\<lparr>player_draws := (player_draws s)(player_id \<mapsto> incr (player_draws s) player_id)\<rparr>))"

text \<open>The rest of it: the player's games, opponents and most frequent opening.\<close>

definition update_opening_keys :: "store \<Rightarrow> game_record \<Rightarrow> pid \<Rightarrow> pid \<Rightarrow> outcome \<times> store" where
  "update_opening_keys s g player_id opponent_id =
     (let s = s\<lparr> player_games_list :=
                   (player_games_list s)(player_id := rpush (player_games_list s player_id) (game_id g)),
                 player_games_set :=
                   (player_games_set s)(player_id := insert (game_id g) (player_games_set s player_id)),
                 player_opponents :=
                   (player_opponents s)(player_id := insert opponent_id (player_opponents s player_id)) \<rparr>;
          this_game_eco_count = incr (player_opening_count s) (player_id, opening_eco g);
          s = s\<lparr>player_opening_count :=
                  (player_opening_count s)((player_id, opening_eco g) \<mapsto> this_game_eco_count)\<rparr>;
          most_used_eco_count = player_most_freq_opening_count s player_id
      in if most_used_eco_count = None \<or> this_game_eco_count > the most_used_eco_count then
           (Ok, s\<lparr> player_most_freq_opening :=
                      (player_most_freq_opening s)(player_id \<mapsto> opening_eco g),
                    player_most_freq_opening_count :=
                      (player_most_freq_opening_count s)(player_id \<mapsto> this_game_eco_count) \<rparr>)
         else (Ok, s))"

definition update_player_keys ::
  "store \<Rightarrow> game_record \<Rightarrow> string \<Rightarrow> pid \<Rightarrow> string \<Rightarrow> pid \<Rightarrow> outcome \<times> store" where
  "update_player_keys s g player_color player_id opponent_color opponent_id =
     and_then (update_result_keys s g player_color player_id opponent_color)
       (\<lambda>s. update_opening_keys s g player_id opponent_id)"

text \<open>
  \<^verbatim>\<open>__update_game_keys\<close>: \<^verbatim>\<open>RPUSH key *moves\<close> with no move is a command without its
  values, which the server rejects.
\<close>

definition update_game_keys :: "store \<Rightarrow> game_record \<Rightarrow> string list \<Rightarrow> outcome \<times> store" where
  "update_game_keys s g moves =
     (let s = s\<lparr>game_attrs := (game_attrs s)(game_id g \<mapsto>
                  \<lparr> game_winner = winner g, game_victory_status = victory_status g,
                    game_turns = number_of_turns g, game_checks = find_number_of_checks moves,
                    game_white_player = white_player_id g, game_black_player = black_player_id g,
                    game_opening_eco = opening_eco g \<rparr>)\<rparr>
      in if moves = [] then (Raise ResponseError, s)
         else (Ok, s\<lparr>game_moves := (game_moves s)(game_id g := game_moves s (game_id g) @ moves)\<rparr>))"


subsection \<open>Global counters and analytics\<close>

definition update_most_common_seqs :: "store \<Rightarrow> seq \<Rightarrow> int \<Rightarrow> store" where
  "update_most_common_seqs s three_move_sequence new_count =
     (let most_count = analytics_most_common_seq_count s
      in if most_count = None \<or> new_count > the most_count then
           s\<lparr> analytics_most_common_seqs := {three_move_sequence},
              analytics_most_common_seq_count := Some new_count \<rparr>
         else if new_count = the most_count then
           s\<lparr>analytics_most_common_seqs := insert three_move_sequence (analytics_most_common_seqs s)\<rparr>
         else s)"

text \<open>
  The loop of \<^verbatim>\<open>__find_least_common_seqs\<close> over the keys that \<^verbatim>\<open>scan_iter\<close> returned for the
  pattern \<^verbatim>\<open>global:seq:*:count\<close>, each key given by the sequence inside it.
  \<^verbatim>\<open>int(redis_client.get(key))\<close> raises on a key that has no value.
\<close>

fun find_least_loop ::
  "seq list \<Rightarrow> (seq \<rightharpoonup> int) \<Rightarrow> int option \<Rightarrow> seq list \<Rightarrow> error + (int option \<times> seq list)" where
  "find_least_loop [] counts min_count min_seqs = Inr (min_count, min_seqs)"
| "find_least_loop (key # ks) counts min_count min_seqs =
     (case counts key of
        None \<Rightarrow> Inl TypeError
      | Some cnt \<Rightarrow>
          if cnt \<noteq> 0 \<and> (min_count = None \<or> cnt < the min_count) then
            find_least_loop ks counts (Some cnt) [key]
          else if Some cnt = min_count then
            find_least_loop ks counts min_count (min_seqs @ [key])
          else find_least_loop ks counts min_count min_seqs)"

text \<open>
  The order in which Redis scans the keys is its own: \<open>scan_iter\<close> is a parameter, the keys
  it returns for a given table of counters.
\<close>

definition find_least_common_seqs ::
  "((seq \<rightharpoonup> int) \<Rightarrow> seq list) \<Rightarrow> store \<Rightarrow> error + (int option \<times> seq list)" where
  "find_least_common_seqs scan_iter s =
     find_least_loop (scan_iter (global_seq_count s)) (global_seq_count s) None []"

definition update_least_common_seqs ::
  "((seq \<rightharpoonup> int) \<Rightarrow> seq list) \<Rightarrow> store \<Rightarrow> seq \<Rightarrow> int \<Rightarrow> outcome \<times> store" where
  "update_least_common_seqs scan_iter s three_move_sequence new_count =
     (let least_count = analytics_least_common_seq_count s
      in if least_count = None \<or> new_count < the least_count then
           (Ok, s\<lparr> analytics_least_common_seqs := {three_move_sequence},
                   analytics_least_common_seq_count := Some new_count \<rparr>)
         else if new_count = the least_count then
           (Ok, s\<lparr>analytics_least_common_seqs :=
                    insert three_move_sequence (analytics_least_common_seqs s)\<rparr>)
         else if new_count > the least_count
                 \<and> three_move_sequence \<in> analytics_least_common_seqs s then
           (let s = s\<lparr>analytics_least_common_seqs :=
                        analytics_least_common_seqs s - {three_move_sequence}\<rparr>;
                remaining = card (analytics_least_common_seqs s)
            in if remaining = 0 then
                 (case find_least_common_seqs scan_iter s of
                    Inl e \<Rightarrow> (Raise e, s)
                  | Inr (new_min_count, new_min_seqs) \<Rightarrow>
                      if new_min_seqs \<noteq> [] then
                        (case new_min_count of
                           None \<Rightarrow> (Raise DataError, s)
                         | Some c \<Rightarrow>
                             (Ok, s\<lparr> analytics_least_common_seqs := set new_min_seqs,
                                     analytics_least_common_seq_count := Some c \<rparr>))
                      else (Ok, s))
               else (Ok, s))
         else (Ok, s))"

fun update_common_seqs ::
  "((seq \<rightharpoonup> int) \<Rightarrow> seq list) \<Rightarrow> store \<Rightarrow> seq list \<Rightarrow> outcome \<times> store" where
  "update_common_seqs scan_iter s [] = (Ok, s)"
| "update_common_seqs scan_iter s (three_move_sequence # rest) =
     (let new_count = incr (global_seq_count s) three_move_sequence;
          s = s\<lparr>global_seq_count := (global_seq_count s)(three_move_sequence \<mapsto> new_count)\<rparr>;
          s = update_most_common_seqs s three_move_sequence new_count
      in case update_least_common_seqs scan_iter s three_move_sequence new_count of
           (Raise e, s) \<Rightarrow> (Raise e, s)
         | (Ok, s) \<Rightarrow> update_common_seqs scan_iter s rest)"

definition update_most_freq_opening :: "store \<Rightarrow> game_record \<Rightarrow> int \<Rightarrow> store" where
  "update_most_freq_opening s g this_game_eco_count =
     (let most_used_eco_count = analytics_most_freq_opening_count s
      in if most_used_eco_count = None \<or> this_game_eco_count > the most_used_eco_count then
           s\<lparr> analytics_most_freq_opening := Some (opening_eco g),
              analytics_most_freq_opening_count := Some this_game_eco_count \<rparr>
         else s)"

definition update_shortest_game :: "store \<Rightarrow> game_record \<Rightarrow> store" where
  "update_shortest_game s g =
     (let current_shortest_game_turns = analytics_shortest_game_turns s
      in if current_shortest_game_turns = None
            \<or> number_of_turns g < the current_shortest_game_turns then
           s\<lparr> analytics_shortest_game := Some (game_id g),
              analytics_shortest_game_turns := Some (number_of_turns g) \<rparr>
         else s)"

subsection \<open>Adding a game record\<close>

text \<open>The loop that adds the game to the set of every three-move sequence it contains.\<close>

fun add_seq_games :: "store \<Rightarrow> seq list \<Rightarrow> gid \<Rightarrow> store" where
  "add_seq_games s [] g = s"
| "add_seq_games s (sq # rest) g =
     add_seq_games (s\<lparr>global_seq_games := (global_seq_games s)(sq := insert g (global_seq_games s sq))\<rparr>)
       rest g"

text \<open>
  \<^verbatim>\<open>add_game_record\<close>, with the library's \<open>json_loads\<close>, the store's \<open>scan_iter\<close> and the
  generator's \<open>uuids\<close> as parameters. The result is \<open>None\<close> only when \<^verbatim>\<open>__new_fid\<close> does not
  return.
\<close>

definition add_game_record ::
  "(string \<Rightarrow> string list option) \<Rightarrow> ((seq \<rightharpoonup> int) \<Rightarrow> seq list) \<Rightarrow> fid list
     \<Rightarrow> store \<Rightarrow> game_record \<Rightarrow> (outcome \<times> store) option" where
  "add_game_record json_loads scan_iter uuids s0 g =
     (case assert_game_is_new s0 (game_id g) of
        (Raise e, s) \<Rightarrow> Some (Raise e, s)
      | (Ok, s) \<Rightarrow>
     (case parse_moveset json_loads (moveset g) of
        Inl e \<Rightarrow> Some (Raise e, s)
      | Inr moves \<Rightarrow>
     (let three_move_sequences = find_all_three_move_sequences moves;
          s = add_seq_games s three_move_sequences (game_id g);
          r = and_then (update_player_keys s g ''white'' (white_player_id g)
                          ''black'' (black_player_id g)) (\<lambda>s.
              and_then (update_player_keys s g ''black'' (black_player_id g)
                          ''white'' (white_player_id g)) (\<lambda>s.
              and_then (update_game_keys s g moves) (\<lambda>s.
              update_common_seqs scan_iter s three_move_sequences)))
      in case r of
           (Raise e, s) \<Rightarrow> Some (Raise e, s)
         | (Ok, s) \<Rightarrow>
             (let this_game_eco_count = incr (global_opening_count s) (opening_eco g);
                  s = s\<lparr>global_opening_count :=
                          (global_opening_count s)(opening_eco g \<mapsto> this_game_eco_count)\<rparr>;
                  s = update_shortest_game s g;
                  s = update_most_freq_opening s g this_game_eco_count
              in update_friend_groups uuids s (white_player_id g) (black_player_id g)))))"

subsection \<open>Notions used in the statements\<close>

text \<open>
  Inserting \<open>v\<close> behind the leading entries whose score is above \<open>n\<close>: what the scan and the
  insertion of \<^verbatim>\<open>__update_top_list\<close> amount to when the scan does not raise.
\<close>

definition insert_desc :: "entry list \<Rightarrow> entry \<Rightarrow> int \<Rightarrow> entry list" where
  "insert_desc items v n =
     takeWhile (\<lambda>e. n < snd e) items @ v # dropWhile (\<lambda>e. n < snd e) items"

text \<open>The records of Scenario A and Scenario B of the specification, and a schedule.\<close>

definition scenario_g1 :: game_record where
  "scenario_g1 =
     \<lparr> game_id = ''g1'', moveset = MovesetList [''e4'', ''e5'', ''Nf3''], winner = ''white'',
       victory_status = ''mate'', number_of_turns = 10, white_player_id = ''p1'',
       black_player_id = ''p2'', opening_eco = ''C1'' \<rparr>"

definition scenario_g1_again :: game_record where
  "scenario_g1_again =
     \<lparr> game_id = ''g1'', moveset = MovesetList [''d4'', ''d5'', ''c4'', ''e6''],
       winner = ''black'', victory_status = ''resign'', number_of_turns = 7,
       white_player_id = ''p2'', black_player_id = ''p3'', opening_eco = ''D06'' \<rparr>"

definition scenario_schedule :: schedule where
  "scenario_schedule = \<lparr> sched_game_id = ''g1'', player_1 = ''p1'', player_2 = ''p2'' \<rparr>"

text \<open>
  The two halves of a call of \<^verbatim>\<open>add_game_record\<close> that got past the check of the id and
  the parser: the steps that can raise, and the steps between them and the friend groups.
\<close>

definition record_steps ::
  "((seq \<rightharpoonup> int) \<Rightarrow> seq list) \<Rightarrow> store \<Rightarrow> game_record \<Rightarrow> string list \<Rightarrow> outcome \<times> store" where
  "record_steps scan_iter s g moves =
     and_then (update_player_keys s g ''white'' (white_player_id g) ''black'' (black_player_id g)) (\<lambda>s.
     and_then (update_player_keys s g ''black'' (black_player_id g) ''white'' (white_player_id g)) (\<lambda>s.
     and_then (update_game_keys s g moves) (\<lambda>s.
     update_common_seqs scan_iter s (find_all_three_move_sequences moves))))"

definition finish_steps :: "store \<Rightarrow> game_record \<Rightarrow> store" where
  "finish_steps s g =
     (let n = incr (global_opening_count s) (opening_eco g)
      in update_most_freq_opening
           (update_shortest_game (s\<lparr>global_opening_count := (global_opening_count s)(opening_eco g \<mapsto> n)\<rparr>) g)
           g n)"

definition scenario_bad_moveset :: game_record where
  "scenario_bad_moveset =
     \<lparr> game_id = ''g1'', moveset = MovesetStr ''e4 e5 Nf3'', winner = ''white'',
       victory_status = ''mate'', number_of_turns = 10, white_player_id = ''p1'',
       black_player_id = ''p2'', opening_eco = ''C1'' \<rparr>"

text \<open>A \<open>json_loads\<close> that rejects every text, as Python's rejects \<^verbatim>\<open>e4 e5 Nf3\<close>.\<close>

definition rejecting_loads :: "string \<Rightarrow> string list option" where
  "rejecting_loads txt = None"

text \<open>
  A scan that visits, in the order of a given list, the keys of the list that have a
  counter. It returns all the keys when each of them is in the list.
\<close>

definition scan_among :: "seq list \<Rightarrow> (seq \<rightharpoonup> int) \<Rightarrow> seq list" where
  "scan_among candidates counts = filter (\<lambda>k. counts k \<noteq> None) candidates"

definition scenario_scan :: "(seq \<rightharpoonup> int) \<Rightarrow> seq list" where
  "scenario_scan = scan_among [''e4,e5,Nf3'', ''d4,d5,c4'', ''d5,c4,e6'']"

text \<open>Scenario C of the specification: a game of a against b, then one of b against c.\<close>

definition scenario_ab :: game_record where
  "scenario_ab =
     \<lparr> game_id = ''g_ab'', moveset = MovesetList [''e4'', ''e5'', ''Nf3''], winner = ''white'',
       victory_status = ''mate'', number_of_turns = 10, white_player_id = ''a'',
       black_player_id = ''b'', opening_eco = ''C1'' \<rparr>"

definition scenario_bc :: game_record where
  "scenario_bc =
     \<lparr> game_id = ''g_bc'', moveset = MovesetList [''d4'', ''d5'', ''c4''], winner = ''draw'',
       victory_status = ''draw'', number_of_turns = 12, white_player_id = ''b'',
       black_player_id = ''c'', opening_eco = ''C1'' \<rparr>"

definition scenario_c_store :: store where
  "scenario_c_store =
     snd (the (add_game_record rejecting_loads scenario_scan [''f2'']
       (snd (the (add_game_record rejecting_loads scenario_scan [''f1''] empty_store scenario_ab)))
       scenario_bc))"

definition scenario_player :: player where
  "scenario_player = \<lparr> user_id = ''g1'', email = ''g1@example.org'' \<rparr>"

text \<open>
  A store in which the player p1 and the club have played C1 twice and D06 once, with C1
  recorded as the most frequent opening, and a drawn game that opens with D06.
\<close>

definition tie_store :: store where
  "tie_store =
     empty_store
       \<lparr> player_opening_count := [(''p1'', ''C1'') \<mapsto> 2, (''p1'', ''D06'') \<mapsto> 1],
         player_most_freq_opening := [''p1'' \<mapsto> ''C1''],
         player_most_freq_opening_count := [''p1'' \<mapsto> 2],
         global_opening_count := [''C1'' \<mapsto> 2, ''D06'' \<mapsto> 1],
         analytics_most_freq_opening := Some ''C1'',
         analytics_most_freq_opening_count := Some 2 \<rparr>"

definition scenario_tie :: game_record where
  "scenario_tie =
     \<lparr> game_id = ''g9'', moveset = MovesetList [''d4'', ''d5'', ''c4''], winner = ''draw'',
       victory_status = ''draw'', number_of_turns = 30, white_player_id = ''p1'',
       black_player_id = ''p2'', opening_eco = ''D06'' \<rparr>"

text \<open>The value that \<^verbatim>\<open>INCR\<close> starts from: a counter that is not there reads as 0.\<close>

definition counter_value :: "('k \<rightharpoonup> int) \<Rightarrow> 'k \<Rightarrow> int" where
  "counter_value m k = (case m k of None \<Rightarrow> 0 | Some c \<Rightarrow> c)"

text \<open>
  The win branch of \<^verbatim>\<open>__update_player_keys\<close> on the two keys it touches, the counters of
  wins and the list of top wins: \<^verbatim>\<open>INCR\<close>, then \<^verbatim>\<open>__update_top_list\<close> with the new count.
  The loss branch is the same on the counters of losses and the list of top losses.
  \<open>record_wins\<close> is a sequence of such calls on an empty list, from the counters of the
  registered players, which \<^verbatim>\<open>add_player\<close> has set to 0 (a player who was never registered
  has no counter, and \<^verbatim>\<open>INCR\<close> starts it).
\<close>

definition record_win :: "(pid \<rightharpoonup> int) \<times> entry list \<Rightarrow> pid \<Rightarrow> (pid \<rightharpoonup> int) \<times> entry list" where
  "record_win st p =
     (let wins = incr (fst st) p
      in ((fst st)(p \<mapsto> wins), snd (update_top_entries (snd st) p wins)))"

definition record_wins :: "(pid \<rightharpoonup> int) \<Rightarrow> pid list \<Rightarrow> (pid \<rightharpoonup> int) \<times> entry list" where
  "record_wins registered ps = foldl record_win (registered, []) ps"

definition all_zero :: "(pid \<rightharpoonup> int) \<Rightarrow> bool" where
  "all_zero registered = (\<forall>p v. registered p = Some v \<longrightarrow> v = 0)"

text \<open>Non-increasing by score.\<close>

definition sorted_desc :: "entry list \<Rightarrow> bool" where
  "sorted_desc lst = sorted_wrt (\<lambda>a b. snd b \<le> snd a) lst"

text \<open>
  Eleven players who win one game each, in this order; the odd ones of them and a twelfth
  player are registered.
\<close>

definition eleven_winners :: "pid list" where
  "eleven_winners =
     [''p01'', ''p02'', ''p03'', ''p04'', ''p05'', ''p06'', ''p07'', ''p08'', ''p09'', ''p10'', ''p11'']"

definition some_registered :: "pid \<rightharpoonup> int" where
  "some_registered =
     [''p01'' \<mapsto> 0, ''p03'' \<mapsto> 0, ''p05'' \<mapsto> 0, ''p07'' \<mapsto> 0, ''p09'' \<mapsto> 0,
      ''p11'' \<mapsto> 0, ''p12'' \<mapsto> 0]"

text \<open>
  What holds of the counters and the list after any sequence of recorded wins: the list is
  non-increasing, has at most ten entries and at most one per player; every entry carries
  the current count of its player (and no id with a colon); and a player with a count
  above 0 who is not on the list is not above any entry of the list, which is full then.
\<close>

definition top_inv :: "(pid \<rightharpoonup> int) \<times> entry list \<Rightarrow> bool" where
  "top_inv st =
     (sorted_desc (snd st) \<and> length (snd st) \<le> 10 \<and> distinct (map fst (snd st))
      \<and> (\<forall>e\<in>set (snd st). fst st (fst e) = Some (snd e) \<and> CHR '':'' \<notin> set (fst e))
      \<and> (\<forall>p s. fst st p = Some s \<and> 0 < s \<and> p \<notin> fst ` set (snd st) \<longrightarrow>
             length (snd st) = 10 \<and> (\<forall>e\<in>set (snd st). s \<le> snd e)))"

text \<open>
  What holds of the counters of the three-move sequences and the tracker of the least
  common ones between two observations: finitely many counters, each at least 1; before
  the first observation no counter and no recorded count; afterwards the recorded count
  is a lower bound of all counters and the recorded set, which is not empty, holds
  exactly the sequences whose counter equals it.
\<close>

definition least_inv :: "store \<Rightarrow> bool" where
  "least_inv s =
     (finite (dom (global_seq_count s))
      \<and> (\<forall>k v. global_seq_count s k = Some v \<longrightarrow> 1 \<le> v)
      \<and> (case analytics_least_common_seq_count s of
            None \<Rightarrow> global_seq_count s = Map.empty \<and> analytics_least_common_seqs s = {}
          | Some m \<Rightarrow>
              analytics_least_common_seqs s \<noteq> {}
              \<and> analytics_least_common_seqs s = {k. global_seq_count s k = Some m}
              \<and> (\<forall>k v. global_seq_count s k = Some v \<longrightarrow> m \<le> v)))"

text \<open>
  What Redis promises of a full scan with no write in between: every key that is there is
  returned (perhaps more than once), and no other. \<open>U\<close> bounds the keys in question.
\<close>

definition scan_complete :: "seq set \<Rightarrow> ((seq \<rightharpoonup> int) \<Rightarrow> seq list) \<Rightarrow> bool" where
  "scan_complete U scan_iter =
     (\<forall>m. finite (dom m) \<and> dom m \<subseteq> U \<longrightarrow> set (scan_iter m) = dom m)"

text \<open>
  A sequence of calls of \<^verbatim>\<open>__update_friend_groups\<close>, one per recorded game: the two players
  and the values the generator of group ids hands out during the call. The sequence has
  no result when one of the calls does not return.
\<close>

fun link_all :: "store \<Rightarrow> (pid \<times> pid \<times> fid list) list \<Rightarrow> store option" where
  "link_all s [] = Some s"
| "link_all s ((pid1, pid2, uuids) # rest) =
     (case update_friend_groups uuids s pid1 pid2 of
        None \<Rightarrow> None
      | Some (r, s') \<Rightarrow> link_all s' rest)"

text \<open>The pairs of players that the calls linked, and the chains of one or more such links.\<close>

definition links :: "(pid \<times> pid \<times> fid list) list \<Rightarrow> (pid \<times> pid) set" where
  "links evs = set (map (\<lambda>e. (fst e, fst (snd e))) evs)"

definition chain :: "(pid \<times> pid \<times> fid list) list \<Rightarrow> pid \<Rightarrow> pid \<Rightarrow> bool" where
  "chain evs p q = ((p, q) \<in> (links evs \<union> (links evs)\<inverse>)\<^sup>+)"

text \<open>Two players are in the same friend group: both point to one group.\<close>

definition same_group :: "store \<Rightarrow> pid \<Rightarrow> pid \<Rightarrow> bool" where
  "same_group s p q =
     (player_friend_group s p \<noteq> None \<and> player_friend_group s p = player_friend_group s q)"

text \<open>
  A player points to a group exactly when it is a member of it; groups are finite; no
  group is named by the empty string (an id from the generator has 32 digits).
\<close>

definition groups_inv :: "store \<Rightarrow> bool" where
  "groups_inv s =
     ((\<forall>p g. player_friend_group s p = Some g \<longleftrightarrow> p \<in> global_friend_group s g)
      \<and> (\<forall>g. finite (global_friend_group s g))
      \<and> global_friend_group s [] = {})"

text \<open>The players tied to p: p and the members of its group.\<close>

definition group_of :: "store \<Rightarrow> pid \<Rightarrow> pid set" where
  "group_of s p = insert p {q. same_group s p q}"

text \<open>
  What a link of a and b makes of the groups: the invariant holds afterwards; two players
  are in one group afterwards exactly when they were before or each of them is tied to a
  or to b; and the members of a group of before are together in a group afterwards.
\<close>

definition linked_after :: "store \<Rightarrow> pid \<Rightarrow> pid \<Rightarrow> store \<Rightarrow> bool" where
  "linked_after s a b s' =
     (groups_inv s'
      \<and> (\<forall>p q. same_group s' p q \<longleftrightarrow>
             same_group s p q
             \<or> (p \<in> group_of s a \<union> group_of s b \<and> q \<in> group_of s a \<union> group_of s b))
      \<and> (\<forall>g. \<exists>g'. global_friend_group s g \<subseteq> global_friend_group s' g'))"

text \<open>
  Four players: a plays b, c plays d (the generator first hands out the id that the first
  group already has), then b plays d.
\<close>

definition scenario_links :: "(pid \<times> pid \<times> fid list) list" where
  "scenario_links =
     [(''a'', ''b'', [''f1'']), (''c'', ''d'', [''f1'', ''f2'']), (''b'', ''d'', [])]"

text \<open>
  Two game records: the player \<^verbatim>\<open>a:b\<close> wins against x, then the player c wins against y.
\<close>

definition scenario_colon_first :: game_record where
  "scenario_colon_first =
     \<lparr> game_id = ''k1'', moveset = MovesetList [''e4'', ''e5'', ''Nf3''], winner = ''white'',
       victory_status = ''mate'', number_of_turns = 10, white_player_id = ''a:b'',
       black_player_id = ''x'', opening_eco = ''C1'' \<rparr>"

definition scenario_colon_second :: game_record where
  "scenario_colon_second =
     \<lparr> game_id = ''k2'', moveset = MovesetList [''d4'', ''d5'', ''c4''], winner = ''white'',
       victory_status = ''mate'', number_of_turns = 12, white_player_id = ''c'',
       black_player_id = ''y'', opening_eco = ''D06'' \<rparr>"

definition scenario_colon_store :: store where
  "scenario_colon_store =
     snd (the (add_game_record rejecting_loads scenario_scan [''f1''] empty_store
                 scenario_colon_first))"

section \<open>Properties\<close>

subsection \<open>The leaderboard: where a new entry goes\<close>

lemma find_insert_before_None:
  "find_insert_before items n = Inr None \<Longrightarrow> takeWhile (\<lambda>e. n < snd e) items = items"
  by (induction items) (auto simp: split_entry_def split: if_splits sum.splits)

lemma find_insert_before_Some_le:
  "find_insert_before items n = Inr (Some pv) \<Longrightarrow> snd pv \<le> n"
  by (induction items) (auto simp: split_entry_def split: if_splits sum.splits)

lemma find_insert_before_Some:
  "find_insert_before items n = Inr (Some pv) \<Longrightarrow>
     linsert_before items pv v = insert_desc items v n"
proof (induction items)
  case Nil
  then show ?case by simp
next
  case (Cons x xs)
  show ?case
  proof (cases "n < snd x")
    case True
    with Cons.prems have f: "find_insert_before xs n = Inr (Some pv)"
      by (auto simp: split_entry_def split: if_splits sum.splits)
    from find_insert_before_Some_le[OF f] True have "x \<noteq> pv" by auto
    with True Cons.IH[OF f] show ?thesis by (simp add: insert_desc_def)
  next
    case False
    with Cons.prems have "pv = x"
      by (auto simp: split_entry_def split: if_splits sum.splits)
    with False show ?thesis by (simp add: insert_desc_def)
  qed
qed

lemma update_top_entries_Ok:
  assumes "update_top_entries lst p n = (Ok, res)"
  shows "res = take 10 (insert_desc (lrem lst (p, n - 1)) (p, n) n)"
proof (cases "find_insert_before (lrem lst (p, n - 1)) n")
  case (Inl e)
  with assms show ?thesis by (simp add: update_top_entries_def Let_def)
next
  case (Inr r)
  show ?thesis
  proof (cases r)
    case None
    with Inr have t: "takeWhile (\<lambda>e. n < snd e) (lrem lst (p, n - 1)) = lrem lst (p, n - 1)"
      by (simp add: find_insert_before_None)
    then have d: "dropWhile (\<lambda>e. n < snd e) (lrem lst (p, n - 1)) = []"
      by (metis takeWhile_eq_all_conv dropWhile_eq_Nil_conv)
    have "insert_desc (lrem lst (p, n - 1)) (p, n) n = lrem lst (p, n - 1) @ [(p, n)]"
      unfolding insert_desc_def t d ..
    with None Inr assms show ?thesis
      by (simp add: update_top_entries_def Let_def rpush_def ltrim0_def)
  next
    case (Some pv)
    with Inr assms show ?thesis
      by (simp add: update_top_entries_def Let_def ltrim0_def find_insert_before_Some)
  qed
qed

lemma ahead_of_take:
  "ahead_of (take k xs) a b \<Longrightarrow> ahead_of xs a b"
  unfolding ahead_of_def
proof (induction xs arbitrary: k)
  case Nil then show ?case by simp
next
  case (Cons x xs)
  then show ?case by (cases k) (auto split: if_splits)
qed

lemma take_ahead_of:
  "b \<in> set (take k xs) \<Longrightarrow> ahead_of xs a b \<Longrightarrow> ahead_of (take k xs) a b"
  unfolding ahead_of_def
proof (induction xs arbitrary: k)
  case Nil then show ?case by simp
next
  case (Cons x xs)
  then show ?case by (cases k) (auto split: if_splits)
qed

lemma ahead_of_new_entry:
  assumes "ahead_of (insert_desc items v n) e v" "snd v = n"
  shows "n < snd e"
proof -
  have "\<forall>x\<in>set (takeWhile (\<lambda>e. n < snd e) items). x \<noteq> v"
    using assms(2) by (auto dest: set_takeWhileD)
  then have "takeWhile (\<lambda>x. x \<noteq> v) (insert_desc items v n) = takeWhile (\<lambda>e. n < snd e) items"
    by (simp add: insert_desc_def takeWhile_append2)
  with assms(1) show ?thesis by (auto simp: ahead_of_def dest: set_takeWhileD)
qed

lemma new_entry_ahead_of:
  assumes "e \<in> set (insert_desc items v n)" "snd e \<le> n" "e \<noteq> v"
  shows "ahead_of (insert_desc items v n) v e"
proof -
  have "\<forall>x\<in>set (takeWhile (\<lambda>e. n < snd e) items). x \<noteq> e"
    using assms(2) by (auto dest: set_takeWhileD)
  then have "takeWhile (\<lambda>x. x \<noteq> e) (insert_desc items v n)
      = takeWhile (\<lambda>e. n < snd e) items @ v # takeWhile (\<lambda>x. x \<noteq> e) (dropWhile (\<lambda>e. n < snd e) items)"
    using assms(3) by (simp add: insert_desc_def takeWhile_append2)
  then show ?thesis by (simp add: ahead_of_def)
qed

text \<open>
  Claim C3, as the code has it. When \<^verbatim>\<open>__update_top_list\<close> inserts the entry of a player,
  every entry that ends up ahead of the new entry has a strictly greater score, and every
  other entry of the resulting list whose score is at most the new score (so every entry
  that ties with it) stands behind the new entry: the newcomer goes ahead of the entries
  it ties with.
\<close>

theorem insert_goes_ahead_of_ties:
  assumes "update_top_entries lst p n = (Ok, res)"
  shows "(\<forall>e. ahead_of res e (p, n) \<longrightarrow> n < snd e)
       \<and> (\<forall>e\<in>set res. snd e \<le> n \<and> e \<noteq> (p, n) \<longrightarrow> ahead_of res (p, n) e)"
proof -
  let ?full = "insert_desc (lrem lst (p, n - 1)) (p, n) n"
  have res: "res = take 10 ?full" using assms by (rule update_top_entries_Ok)
  have a: "n < snd e" if "ahead_of res e (p, n)" for e
    using that ahead_of_take[of 10 ?full e "(p, n)"] ahead_of_new_entry[of "lrem lst (p, n - 1)" "(p, n)" n e]
    by (simp add: res)
  have b: "ahead_of res (p, n) e" if "e \<in> set res" "snd e \<le> n" "e \<noteq> (p, n)" for e
  proof -
    from that(1) have "e \<in> set ?full" unfolding res by (rule in_set_takeD)
    then have "ahead_of ?full (p, n) e" using that(2,3) by (rule new_entry_ahead_of)
    with that(1) show ?thesis unfolding res by (rule take_ahead_of)
  qed
  from a b show ?thesis by blast
qed

theorem insert_goes_ahead_of_ties_witness:
  "update_top_entries [(''a'', 3), (''b'', 1)] ''c'' 1 = (Ok, [(''a'', 3), (''c'', 1), (''b'', 1)])
   \<and> ahead_of [(''a'', 3::int), (''c'', 1), (''b'', 1)] (''c'', 1) (''b'', 1)"
proof -
  have h: "update_top_entries [(''a'', 3), (''b'', 1)] ''c'' 1 = (Ok, [(''a'', 3), (''c'', 1), (''b'', 1)])"
    by (simp add: update_top_entries_def lrem_def split_entry_def ltrim0_def)
  from insert_goes_ahead_of_ties[OF h] have "ahead_of [(''a'', 3::int), (''c'', 1), (''b'', 1)] (''c'', 1) (''b'', 1)"
    by simp
  with h show ?thesis by simp
qed

text \<open>
  The entry \<^verbatim>\<open>b:1\<close> was admitted first; the update for \<^verbatim>\<open>c\<close> with the equal score 1 puts
  \<^verbatim>\<open>c:1\<close> at the head, so the earlier entry does not stay ahead of the new one.
\<close>

theorem stable_ties_counterexample:
  "fst (update_top_entries [(''b'', 1)] ''c'' 1) = Ok
   \<and> (''b'', 1) \<in> set (snd (update_top_entries [(''b'', 1)] ''c'' 1))
   \<and> \<not> ahead_of (snd (update_top_entries [(''b'', 1)] ''c'' 1)) (''b'', 1) (''c'', 1)"
  by (simp add: update_top_entries_def lrem_def split_entry_def ltrim0_def ahead_of_def)

subsection \<open>Frames: what a step leaves alone\<close>

lemmas store_step_defs =
  assert_game_is_new_def parse_moveset_def find_all_three_move_sequences_def slice_def
  and_then_def update_player_keys_def update_result_keys_def update_opening_keys_def
  update_top_list_def update_top_entries_def lrem_def rpush_def ltrim0_def split_entry_def
  incr_def update_game_keys_def find_number_of_checks_def
  update_most_common_seqs_def update_least_common_seqs_def
  update_shortest_game_def update_most_freq_opening_def update_friend_groups_def
  find_least_common_seqs_def scan_among_def scenario_scan_def

lemma and_then_cases:
  assumes "and_then r f = (r', s')"
  obtains e where "r = (Raise e, s')" "r' = Raise e"
        | s1 where "r = (Ok, s1)" "f s1 = (r', s')"
  using assms by (auto simp: and_then_def split: prod.splits outcome.splits)

lemma update_top_list_ids:
  assumes "update_top_list s k p n = (r, s')"
  shows "global_games_ids s' = global_games_ids s \<and> global_players_ids s' = global_players_ids s
       \<and> global_seq_games s' = global_seq_games s \<and> global_seq_count s' = global_seq_count s"
  using assms by (auto simp: update_top_list_def split: list_key.splits prod.splits)

lemma update_result_keys_ids:
  assumes "update_result_keys s g c p oc = (r, s')"
  shows "global_games_ids s' = global_games_ids s \<and> global_players_ids s' = global_players_ids s
       \<and> global_seq_games s' = global_seq_games s \<and> global_seq_count s' = global_seq_count s"
  using assms by (auto simp: update_result_keys_def Let_def dest!: update_top_list_ids split: if_splits)

lemma update_opening_keys_ids:
  assumes "update_opening_keys s g p op = (r, s')"
  shows "global_games_ids s' = global_games_ids s \<and> global_players_ids s' = global_players_ids s
       \<and> global_seq_games s' = global_seq_games s \<and> global_seq_count s' = global_seq_count s"
  using assms by (auto simp: update_opening_keys_def Let_def split: if_splits)

lemma update_player_keys_ids:
  assumes "update_player_keys s g c p oc op = (r, s')"
  shows "global_games_ids s' = global_games_ids s \<and> global_players_ids s' = global_players_ids s
       \<and> global_seq_games s' = global_seq_games s \<and> global_seq_count s' = global_seq_count s"
  using assms unfolding update_player_keys_def
  by (elim and_then_cases) (auto dest!: update_result_keys_ids update_opening_keys_ids)

lemma update_game_keys_ids:
  assumes "update_game_keys s g moves = (r, s')"
  shows "global_games_ids s' = global_games_ids s \<and> global_players_ids s' = global_players_ids s
       \<and> global_seq_games s' = global_seq_games s \<and> global_seq_count s' = global_seq_count s"
  using assms by (auto simp: update_game_keys_def Let_def split: if_splits)

lemma update_most_common_seqs_ids:
  "global_games_ids (update_most_common_seqs s q n) = global_games_ids s
   \<and> global_players_ids (update_most_common_seqs s q n) = global_players_ids s
   \<and> global_seq_games (update_most_common_seqs s q n) = global_seq_games s
   \<and> global_seq_count (update_most_common_seqs s q n) = global_seq_count s"
  by (simp add: update_most_common_seqs_def Let_def)

lemma update_least_common_seqs_ids:
  assumes "update_least_common_seqs sc s q n = (r, s')"
  shows "global_games_ids s' = global_games_ids s \<and> global_players_ids s' = global_players_ids s
       \<and> global_seq_games s' = global_seq_games s \<and> global_seq_count s' = global_seq_count s"
  using assms
  by (auto simp: update_least_common_seqs_def Let_def
           split: if_splits sum.splits prod.splits option.splits)

lemma update_common_seqs_ids:
  assumes "update_common_seqs sc s qs = (r, s')"
  shows "global_games_ids s' = global_games_ids s \<and> global_players_ids s' = global_players_ids s
       \<and> global_seq_games s' = global_seq_games s"
  using assms
proof (induction qs arbitrary: s)
  case Nil
  then show ?case by simp
next
  case (Cons q qs)
  let ?n = "incr (global_seq_count s) q"
  let ?s1 = "update_most_common_seqs (s\<lparr>global_seq_count := (global_seq_count s)(q \<mapsto> ?n)\<rparr>) q ?n"
  obtain r1 s2 where u: "update_least_common_seqs sc ?s1 q ?n = (r1, s2)" by fastforce
  have k: "global_games_ids s2 = global_games_ids s \<and> global_players_ids s2 = global_players_ids s
       \<and> global_seq_games s2 = global_seq_games s"
    using update_least_common_seqs_ids[OF u] by (simp add: update_most_common_seqs_ids)
  show ?case
  proof (cases r1)
    case Ok
    with Cons.prems u have "update_common_seqs sc s2 qs = (r, s')" by (simp add: Let_def)
    from Cons.IH[OF this] k show ?thesis by simp
  next
    case (Raise e)
    with Cons.prems u have "s' = s2" by (simp add: Let_def)
    with k show ?thesis by simp
  qed
qed

lemma add_seq_games_ids:
  "global_games_ids (add_seq_games s qs g) = global_games_ids s
   \<and> global_players_ids (add_seq_games s qs g) = global_players_ids s
   \<and> global_seq_count (add_seq_games s qs g) = global_seq_count s"
  by (induction qs arbitrary: s) auto

lemma update_friend_groups_ids:
  assumes "update_friend_groups us s a b = Some (r, s')"
  shows "global_games_ids s' = global_games_ids s \<and> global_players_ids s' = global_players_ids s
       \<and> global_seq_games s' = global_seq_games s \<and> global_seq_count s' = global_seq_count s"
  using assms
  by (auto simp: update_friend_groups_def Let_def split: if_splits option.splits prod.splits)


lemma update_shortest_game_ids:
  "global_games_ids (update_shortest_game s g) = global_games_ids s
   \<and> global_players_ids (update_shortest_game s g) = global_players_ids s
   \<and> global_seq_games (update_shortest_game s g) = global_seq_games s
   \<and> global_seq_count (update_shortest_game s g) = global_seq_count s"
  by (simp add: update_shortest_game_def Let_def)

lemma update_most_freq_opening_ids:
  "global_games_ids (update_most_freq_opening s g n) = global_games_ids s
   \<and> global_players_ids (update_most_freq_opening s g n) = global_players_ids s
   \<and> global_seq_games (update_most_freq_opening s g n) = global_seq_games s
   \<and> global_seq_count (update_most_freq_opening s g n) = global_seq_count s"
  by (simp add: update_most_freq_opening_def Let_def)

lemma add_game_record_unfold:
  "add_game_record jl sc us s g =
     (if game_id g \<in> global_games_ids s then Some (Raise BoardGameClubNotUniqueError, s)
      else case parse_moveset jl (moveset g) of
             Inl e \<Rightarrow> Some (Raise e, s\<lparr>global_games_ids := insert (game_id g) (global_games_ids s)\<rparr>)
           | Inr moves \<Rightarrow>
               (case record_steps sc
                       (add_seq_games (s\<lparr>global_games_ids := insert (game_id g) (global_games_ids s)\<rparr>)
                          (find_all_three_move_sequences moves) (game_id g)) g moves of
                  (Raise e, s1) \<Rightarrow> Some (Raise e, s1)
                | (Ok, s1) \<Rightarrow>
                    update_friend_groups us (finish_steps s1 g) (white_player_id g) (black_player_id g)))"
  by (simp add: add_game_record_def assert_game_is_new_def record_steps_def finish_steps_def Let_def
           split: sum.splits prod.splits outcome.splits)

lemma record_steps_ids:
  assumes "record_steps sc s g moves = (r, s')"
  shows "global_games_ids s' = global_games_ids s \<and> global_players_ids s' = global_players_ids s
       \<and> global_seq_games s' = global_seq_games s"
  using assms unfolding record_steps_def
  by (elim and_then_cases)
     (auto dest!: update_player_keys_ids update_game_keys_ids update_common_seqs_ids)

lemma finish_steps_ids:
  "global_games_ids (finish_steps s g) = global_games_ids s
   \<and> global_players_ids (finish_steps s g) = global_players_ids s
   \<and> global_seq_games (finish_steps s g) = global_seq_games s
   \<and> global_seq_count (finish_steps s g) = global_seq_count s"
  by (simp add: finish_steps_def Let_def update_most_freq_opening_ids update_shortest_game_ids)

lemma add_game_record_ids:
  assumes "add_game_record jl sc us s g = Some (r, s')"
  shows "global_games_ids s' = insert (game_id g) (global_games_ids s)
       \<and> global_players_ids s' = global_players_ids s"
proof (cases "game_id g \<in> global_games_ids s")
  case True
  with assms show ?thesis by (auto simp: add_game_record_unfold)
next
  case False
  let ?s1 = "s\<lparr>global_games_ids := insert (game_id g) (global_games_ids s)\<rparr>"
  show ?thesis
  proof (cases "parse_moveset jl (moveset g)")
    case (Inl e)
    with False assms show ?thesis by (auto simp: add_game_record_unfold)
  next
    case (Inr moves)
    let ?s2 = "add_seq_games ?s1 (find_all_three_move_sequences moves) (game_id g)"
    obtain r3 s3 where rs: "record_steps sc ?s2 g moves = (r3, s3)" by fastforce
    have k3: "global_games_ids s3 = insert (game_id g) (global_games_ids s)
       \<and> global_players_ids s3 = global_players_ids s"
      using record_steps_ids[OF rs] by (simp add: add_seq_games_ids)
    show ?thesis
    proof (cases r3)
      case Ok
      with False Inr rs assms
      have "update_friend_groups us (finish_steps s3 g) (white_player_id g) (black_player_id g) = Some (r, s')"
        by (simp add: add_game_record_unfold)
      from update_friend_groups_ids[OF this] k3 show ?thesis by (simp add: finish_steps_ids)
    next
      case (Raise e)
      with False Inr rs assms have "s' = s3" by (simp add: add_game_record_unfold)
      with k3 show ?thesis by simp
    qed
  qed
qed

subsection \<open>The registry of game ids and the parser\<close>

lemma scenario_g1_added:
  "\<exists>s. add_game_record rejecting_loads scenario_scan [''f1''] empty_store scenario_g1 = Some (Ok, s)"
  by (simp add: add_game_record_def scenario_g1_def empty_store_def store_step_defs Let_def upt_rec)

text \<open>
  Claim C5. A game record whose id is already in the registry of game ids makes
  \<^verbatim>\<open>add_game_record\<close> raise \<^verbatim>\<open>BoardGameClubNotUniqueError\<close> and leaves the whole store,
  every key of it, as it was.
\<close>

theorem duplicate_game_id_rejected:
  assumes "game_id g \<in> global_games_ids s"
  shows "add_game_record json_loads scan_iter uuids s g = Some (Raise BoardGameClubNotUniqueError, s)"
  using assms by (simp add: add_game_record_unfold)

theorem duplicate_game_id_rejected_witness:
  "\<exists>s. add_game_record rejecting_loads scenario_scan [''f1''] empty_store scenario_g1 = Some (Ok, s)
      \<and> add_game_record rejecting_loads scenario_scan [''f2''] s scenario_g1_again
          = Some (Raise BoardGameClubNotUniqueError, s)"
proof -
  obtain s where a: "add_game_record rejecting_loads scenario_scan [''f1''] empty_store scenario_g1 = Some (Ok, s)"
    using scenario_g1_added by blast
  from add_game_record_ids[OF a] have "game_id scenario_g1_again \<in> global_games_ids s"
    by (simp add: scenario_g1_def scenario_g1_again_def)
  from duplicate_game_id_rejected[OF this] a show ?thesis by blast
qed

text \<open>
  Claim C6, as the code has it. When the id is new and the library's parser rejects the
  text of the move set, \<^verbatim>\<open>add_game_record\<close> ends in the library's \<^verbatim>\<open>JSONDecodeError\<close>,
  which is not one of the application's errors; the id has been entered in the registry
  of game ids by then, and no other key has been written.
\<close>

theorem unparsable_moveset_raises_decode_error:
  assumes "game_id g \<notin> global_games_ids s"
    and "moveset g = MovesetStr str"
    and "json_loads (replace_quotes str) = None"
  shows "add_game_record json_loads scan_iter uuids s g
           = Some (Raise JSONDecodeError, s\<lparr>global_games_ids := insert (game_id g) (global_games_ids s)\<rparr>)
         \<and> \<not> is_BoardGameClubRootError JSONDecodeError"
  using assms by (simp add: add_game_record_unfold parse_moveset_def)

theorem unparsable_moveset_raises_decode_error_witness:
  "add_game_record rejecting_loads scenario_scan [] empty_store scenario_bad_moveset
     = Some (Raise JSONDecodeError, empty_store\<lparr>global_games_ids := {''g1''}\<rparr>)"
proof -
  have 1: "game_id scenario_bad_moveset \<notin> global_games_ids empty_store"
    by (simp add: empty_store_def)
  have 2: "moveset scenario_bad_moveset = MovesetStr ''e4 e5 Nf3''"
    by (simp add: scenario_bad_moveset_def)
  have 3: "rejecting_loads (replace_quotes ''e4 e5 Nf3'') = None"
    by (simp add: rejecting_loads_def)
  from unparsable_moveset_raises_decode_error[where g = scenario_bad_moveset and s = empty_store
      and str = "''e4 e5 Nf3''" and json_loads = rejecting_loads and scan_iter = scenario_scan
      and uuids = "[]", OF 1 2 3]
  show ?thesis by (simp add: scenario_bad_moveset_def empty_store_def)
qed

text \<open>
  The record with the move set \<^verbatim>\<open>e4 e5 Nf3\<close>, which is no JSON text: the call ends in an
  error outside the application's taxonomy, with the id of the game in the registry.
\<close>

theorem malformed_category_source_counterexample:
  "\<not> (\<exists>e s. add_game_record rejecting_loads scenario_scan [] empty_store scenario_bad_moveset
              = Some (Raise e, s) \<and> is_BoardGameClubRootError e)
   \<and> (\<exists>s. add_game_record rejecting_loads scenario_scan [] empty_store scenario_bad_moveset
              = Some (Raise JSONDecodeError, s) \<and> ''g1'' \<in> global_games_ids s)"
  by (simp add: add_game_record_unfold parse_moveset_def rejecting_loads_def
        scenario_bad_moveset_def empty_store_def)

subsection \<open>Friends of friends\<close>

lemma scenario_c_groups:
  "player_friend_group scenario_c_store ''a'' = Some ''f1''
   \<and> global_friend_group scenario_c_store ''f1'' = {''a'', ''b'', ''c''}
   \<and> player_opponents scenario_c_store ''a'' = {''b''}"
  by (simp add: scenario_c_store_def add_game_record_def scenario_ab_def scenario_bc_def
        empty_store_def store_step_defs Let_def upt_rec insert_commute)

text \<open>
  Claim C9. A player is among the friends of friends of P0 exactly when it is a member of
  the friend group that P0 points to, is not one of P0's opponents and is not P0; when P0
  points to no friend group the answer is empty.
\<close>

theorem friends_of_friends_exact:
  "(q \<in> get_friends_of_friends s p0 \<longleftrightarrow>
      (\<exists>f. player_friend_group s p0 = Some f \<and> q \<in> global_friend_group s f)
      \<and> q \<notin> player_opponents s p0 \<and> q \<noteq> p0)
   \<and> (player_friend_group s p0 = None \<longrightarrow> get_friends_of_friends s p0 = {})"
  by (auto simp: get_friends_of_friends_def split: option.splits)

theorem friends_of_friends_exact_witness:
  "''c'' \<in> get_friends_of_friends scenario_c_store ''a''
   \<and> ''b'' \<notin> get_friends_of_friends scenario_c_store ''a''
   \<and> ''a'' \<notin> get_friends_of_friends scenario_c_store ''a''
   \<and> player_friend_group empty_store ''a'' = None
   \<and> get_friends_of_friends empty_store ''a'' = {}"
proof -
  have e: "player_friend_group empty_store ''a'' = None" by (simp add: empty_store_def)
  note t = friends_of_friends_exact[of _ scenario_c_store "''a''"]
  have "''c'' \<in> get_friends_of_friends scenario_c_store ''a''"
    using t[of "''c''"] scenario_c_groups by simp
  moreover have "''b'' \<notin> get_friends_of_friends scenario_c_store ''a''"
    using t[of "''b''"] scenario_c_groups by simp
  moreover have "''a'' \<notin> get_friends_of_friends scenario_c_store ''a''"
    using t[of "''a''"] by simp
  moreover have "get_friends_of_friends empty_store ''a'' = {}"
    using friends_of_friends_exact[of "''a''" empty_store "''a''"] e by blast
  ultimately show ?thesis using e by blast
qed

subsection \<open>One registry for schedules and games, one for players\<close>

lemma add_schedule_ids:
  assumes "add_schedule s sc = (r, s')"
  shows "global_games_ids s' = insert (sched_game_id sc) (global_games_ids s)
       \<and> global_players_ids s' = global_players_ids s"
  using assms
  by (auto simp: add_schedule_def assert_game_is_new_def and_then_def push_scheduled_def Let_def
           split: if_splits)

lemma add_schedule_duplicate:
  "sched_game_id sc \<in> global_games_ids s \<Longrightarrow> add_schedule s sc = (Raise BoardGameClubNotUniqueError, s)"
  by (simp add: add_schedule_def assert_game_is_new_def and_then_def)

lemma add_player_outcome:
  "fst (add_player s pl) = (if user_id pl \<in> global_players_ids s then Raise BoardGameClubNotUniqueError else Ok)"
  by (simp add: add_player_def assert_player_is_new_def and_then_def Let_def)

text \<open>
  Claim C10. Schedules and game records reserve their ids in one registry: after a
  schedule was added, a game record with its id is rejected with
  \<^verbatim>\<open>BoardGameClubNotUniqueError\<close> and changes nothing, and after a call of
  \<^verbatim>\<open>add_game_record\<close> that returned, however it ended, a schedule with its id is rejected
  likewise. Players have a registry of their own, which neither of the two touches:
  \<^verbatim>\<open>add_player\<close> raises \<^verbatim>\<open>BoardGameClubNotUniqueError\<close> exactly when the id is among the
  player ids, whatever the game ids are.
\<close>

theorem registries_of_ids:
  "(add_schedule s sc = (Ok, s1) \<and> game_id g = sched_game_id sc \<longrightarrow>
      add_game_record json_loads scan_iter uuids s1 g = Some (Raise BoardGameClubNotUniqueError, s1))
   \<and> (add_game_record json_loads scan_iter uuids s g = Some (r, s2) \<and> sched_game_id sc = game_id g \<longrightarrow>
      add_schedule s2 sc = (Raise BoardGameClubNotUniqueError, s2))
   \<and> (add_schedule s sc = (r, s1) \<longrightarrow> global_players_ids s1 = global_players_ids s)
   \<and> (add_game_record json_loads scan_iter uuids s g = Some (r, s2) \<longrightarrow>
      global_players_ids s2 = global_players_ids s)
   \<and> (fst (add_player s pl) = Raise BoardGameClubNotUniqueError \<longleftrightarrow> user_id pl \<in> global_players_ids s)
   \<and> (user_id pl \<notin> global_players_ids s \<longrightarrow> fst (add_player s pl) = Ok)"
proof -
  have a: "add_game_record json_loads scan_iter uuids s1 g = Some (Raise BoardGameClubNotUniqueError, s1)"
    if "add_schedule s sc = (Ok, s1)" "game_id g = sched_game_id sc"
  proof -
    from add_schedule_ids[OF that(1)] that(2) have "game_id g \<in> global_games_ids s1" by simp
    then show ?thesis by (simp add: add_game_record_unfold)
  qed
  have b: "add_schedule s2 sc = (Raise BoardGameClubNotUniqueError, s2)"
    if "add_game_record json_loads scan_iter uuids s g = Some (r, s2)" "sched_game_id sc = game_id g"
  proof -
    from add_game_record_ids[OF that(1)] that(2) have "sched_game_id sc \<in> global_games_ids s2" by simp
    then show ?thesis by (rule add_schedule_duplicate)
  qed
  have c: "global_players_ids s1 = global_players_ids s" if "add_schedule s sc = (r, s1)"
    using add_schedule_ids[OF that] by simp
  have d: "global_players_ids s2 = global_players_ids s"
    if "add_game_record json_loads scan_iter uuids s g = Some (r, s2)"
    using add_game_record_ids[OF that] by simp
  have e: "fst (add_player s pl) = Raise BoardGameClubNotUniqueError \<longleftrightarrow> user_id pl \<in> global_players_ids s"
    by (simp add: add_player_outcome)
  have f: "fst (add_player s pl) = Ok" if "user_id pl \<notin> global_players_ids s"
    using that by (simp add: add_player_outcome)
  from a b c d e f show ?thesis by blast
qed

lemma scenario_schedule_added:
  "\<exists>s. add_schedule empty_store scenario_schedule = (Ok, s)"
  by (simp add: add_schedule_def assert_game_is_new_def and_then_def empty_store_def
        scenario_schedule_def Let_def)

theorem registries_of_ids_witness:
  "\<exists>s1 s2. add_schedule empty_store scenario_schedule = (Ok, s1)
     \<and> add_game_record rejecting_loads scenario_scan [''f1''] s1 scenario_g1
         = Some (Raise BoardGameClubNotUniqueError, s1)
     \<and> add_game_record rejecting_loads scenario_scan [''f1''] empty_store scenario_g1 = Some (Ok, s2)
     \<and> add_schedule s2 scenario_schedule = (Raise BoardGameClubNotUniqueError, s2)
     \<and> ''g1'' \<in> global_games_ids s2
     \<and> user_id scenario_player = ''g1''
     \<and> fst (add_player s2 scenario_player) = Ok"
proof -
  obtain s1 where a: "add_schedule empty_store scenario_schedule = (Ok, s1)"
    using scenario_schedule_added by blast
  obtain s2 where b: "add_game_record rejecting_loads scenario_scan [''f1''] empty_store scenario_g1 = Some (Ok, s2)"
    using scenario_g1_added by blast
  have ids: "game_id scenario_g1 = sched_game_id scenario_schedule"
    by (simp add: scenario_g1_def scenario_schedule_def)
  note t = registries_of_ids[where s = empty_store and sc = scenario_schedule and g = scenario_g1
      and json_loads = rejecting_loads and scan_iter = scenario_scan and uuids = "[''f1'']"]
  have 1: "add_game_record rejecting_loads scenario_scan [''f1''] s1 scenario_g1
         = Some (Raise BoardGameClubNotUniqueError, s1)"
    using t[where ?s1.0 = s1] a ids by blast
  have 2: "add_schedule s2 scenario_schedule = (Raise BoardGameClubNotUniqueError, s2)"
    using t[where ?s2.0 = s2 and r = Ok] b ids by simp
  have 3: "global_players_ids s2 = global_players_ids empty_store"
    using t[where ?s2.0 = s2 and r = Ok] b by blast
  have 4: "''g1'' \<in> global_games_ids s2"
    using add_game_record_ids[OF b] by (simp add: scenario_g1_def)
  have "user_id scenario_player \<notin> global_players_ids s2"
    unfolding 3 by (simp add: empty_store_def)
  then have 5: "fst (add_player s2 scenario_player) = Ok"
    using registries_of_ids[where s = s2 and pl = scenario_player] by blast
  from a 1 b 2 4 5 show ?thesis by (auto simp: scenario_player_def)
qed

subsection \<open>The most frequent opening\<close>

lemma update_top_list_openings:
  assumes "update_top_list s k p n = (r, s')"
  shows "player_most_freq_opening s' = player_most_freq_opening s
       \<and> player_most_freq_opening_count s' = player_most_freq_opening_count s
       \<and> player_opening_count s' = player_opening_count s"
  using assms by (auto simp: update_top_list_def split: list_key.splits prod.splits)

lemma update_result_keys_openings:
  assumes "update_result_keys s g c p oc = (r, s')"
  shows "player_most_freq_opening s' = player_most_freq_opening s
       \<and> player_most_freq_opening_count s' = player_most_freq_opening_count s
       \<and> player_opening_count s' = player_opening_count s"
  using assms
  by (auto simp: update_result_keys_def Let_def dest!: update_top_list_openings split: if_splits)

text \<open>
  Claim C7. In the scope of a player, \<^verbatim>\<open>__update_player_keys\<close> sets the recorded most
  frequent opening and its count to the opening of the game and its just-incremented
  count when no count is recorded or the new count is strictly greater than the recorded
  one (and the call does not raise before it gets there); in every other case, a tie
  included, the recorded opening and count stay as they were, and the records of the
  other players always do. In the global scope \<^verbatim>\<open>__update_most_freq_opening\<close> does the
  same with the global leader.
\<close>

theorem most_freq_opening_changes_only_when_beaten:
  assumes "update_player_keys s g color p opp_color opp = (r, s')"
  shows "(r = Ok \<and> (player_most_freq_opening_count s p = None
                    \<or> incr (player_opening_count s) (p, opening_eco g)
                         > the (player_most_freq_opening_count s p)) \<longrightarrow>
            player_most_freq_opening s' p = Some (opening_eco g)
            \<and> player_most_freq_opening_count s' p
                = Some (incr (player_opening_count s) (p, opening_eco g)))
       \<and> (\<not> (player_most_freq_opening_count s p = None
               \<or> incr (player_opening_count s) (p, opening_eco g)
                    > the (player_most_freq_opening_count s p)) \<longrightarrow>
            player_most_freq_opening s' p = player_most_freq_opening s p
            \<and> player_most_freq_opening_count s' p = player_most_freq_opening_count s p)
       \<and> (\<forall>q. q \<noteq> p \<longrightarrow>
            player_most_freq_opening s' q = player_most_freq_opening s q
            \<and> player_most_freq_opening_count s' q = player_most_freq_opening_count s q)
       \<and> ((analytics_most_freq_opening_count s = None \<or> n > the (analytics_most_freq_opening_count s)) \<longrightarrow>
            analytics_most_freq_opening (update_most_freq_opening s g n) = Some (opening_eco g)
            \<and> analytics_most_freq_opening_count (update_most_freq_opening s g n) = Some n)
       \<and> (\<not> (analytics_most_freq_opening_count s = None \<or> n > the (analytics_most_freq_opening_count s)) \<longrightarrow>
            update_most_freq_opening s g n = s)"
proof -
  from assms obtain r1 s1 where
    1: "update_result_keys s g color p opp_color = (r1, s1)" and
    2: "(r1 = Ok \<and> update_opening_keys s1 g p opp = (r, s')) \<or> (r1 \<noteq> Ok \<and> r = r1 \<and> s' = s1)"
    unfolding update_player_keys_def by (elim and_then_cases) auto
  note k = update_result_keys_openings[OF 1]
  from 2 show ?thesis
  proof
    assume "r1 = Ok \<and> update_opening_keys s1 g p opp = (r, s')"
    then show ?thesis using k
      by (auto simp: update_opening_keys_def update_most_freq_opening_def Let_def split: if_splits)
  next
    assume "r1 \<noteq> Ok \<and> r = r1 \<and> s' = s1"
    then show ?thesis using k
      by (auto simp: update_most_freq_opening_def Let_def)
  qed
qed


theorem most_freq_opening_changes_only_when_beaten_witness:
  "player_most_freq_opening_count tie_store ''p1'' = Some 2
   \<and> incr (player_opening_count tie_store) (''p1'', opening_eco scenario_tie) = 2
   \<and> player_most_freq_opening
        (snd (update_player_keys tie_store scenario_tie ''white'' ''p1'' ''black'' ''p2'')) ''p1''
       = Some ''C1''
   \<and> player_most_freq_opening_count
        (snd (update_player_keys tie_store scenario_tie ''white'' ''p1'' ''black'' ''p2'')) ''p1''
       = Some 2
   \<and> update_most_freq_opening tie_store scenario_tie 2 = tie_store
   \<and> player_most_freq_opening
        (snd (update_player_keys tie_store scenario_tie ''black'' ''p2'' ''white'' ''p1'')) ''p2''
       = Some ''D06''
   \<and> analytics_most_freq_opening (update_most_freq_opening tie_store scenario_tie 3) = Some ''D06''"
proof -
  let ?w = "update_player_keys tie_store scenario_tie ''white'' ''p1'' ''black'' ''p2''"
  let ?b = "update_player_keys tie_store scenario_tie ''black'' ''p2'' ''white'' ''p1''"
  have c: "player_most_freq_opening_count tie_store ''p1'' = Some 2"
    and i: "incr (player_opening_count tie_store) (''p1'', opening_eco scenario_tie) = 2"
    and f: "player_most_freq_opening tie_store ''p1'' = Some ''C1''"
    and g: "analytics_most_freq_opening_count tie_store = Some 2"
    and e: "opening_eco scenario_tie = ''D06''"
    and c2: "player_most_freq_opening_count tie_store ''p2'' = None"
    by (simp_all add: tie_store_def empty_store_def scenario_tie_def incr_def)
  have okb: "fst ?b = Ok"
    by (simp add: update_player_keys_def update_result_keys_def update_opening_keys_def
          and_then_def scenario_tie_def Let_def)
  note w = most_freq_opening_changes_only_when_beaten[of tie_store scenario_tie "''white''" "''p1''"
      "''black''" "''p2''" "fst ?w" "snd ?w" 2, OF prod.collapse[symmetric]]
  note b = most_freq_opening_changes_only_when_beaten[of tie_store scenario_tie "''black''" "''p2''"
      "''white''" "''p1''" "fst ?b" "snd ?b" 3, OF prod.collapse[symmetric]]
  from w have "player_most_freq_opening (snd ?w) ''p1'' = Some ''C1''"
    and "player_most_freq_opening_count (snd ?w) ''p1'' = Some 2"
    and "update_most_freq_opening tie_store scenario_tie 2 = tie_store"
    by (simp_all add: c i f g)
  moreover from b have "player_most_freq_opening (snd ?b) ''p2'' = Some ''D06''"
    and "analytics_most_freq_opening (update_most_freq_opening tie_store scenario_tie 3) = Some ''D06''"
    by (simp_all add: c2 g e okb)
  ultimately show ?thesis using c i by simp
qed

subsection \<open>Three-move sequences\<close>









subsection \<open>The least common three-move sequences\<close>

lemma find_least_loop_spec:
  assumes "\<forall>k\<in>set ks. \<exists>v. counts k = Some v \<and> v \<noteq> 0"
  shows "\<exists>mc' ms'. find_least_loop ks counts mc ms = Inr (mc', ms')
          \<and> (\<forall>k\<in>set ks. \<forall>v. counts k = Some v \<longrightarrow> (\<exists>m. mc' = Some m \<and> m \<le> v))
          \<and> (\<forall>c. mc = Some c \<longrightarrow> (\<exists>m. mc' = Some m \<and> m \<le> c))
          \<and> (mc' = mc \<or> (\<exists>k\<in>set ks. counts k = mc'))
          \<and> set ms' = (if mc' = mc then set ms else {}) \<union> {k \<in> set ks. counts k = mc'}"
  using assms
proof (induction ks arbitrary: mc ms)
  case Nil
  then show ?case by simp
next
  case (Cons k ks)
  from Cons.prems obtain v where v: "counts k = Some v" "v \<noteq> 0" by auto
  from Cons.prems have rest: "\<forall>k\<in>set ks. \<exists>v. counts k = Some v \<and> v \<noteq> 0" by simp
  consider (less) "mc = None \<or> v < the mc" | (eq) "mc = Some v" | (more) "\<exists>c. mc = Some c \<and> c < v"
    by (cases mc) (auto, linarith)
  then show ?case
  proof cases
    case less
    from Cons.IH[OF rest, of "Some v" "[k]"] obtain mc' ms' where
      r: "find_least_loop ks counts (Some v) [k] = Inr (mc', ms')"
      and lo: "\<forall>k\<in>set ks. \<forall>v. counts k = Some v \<longrightarrow> (\<exists>m. mc' = Some m \<and> m \<le> v)"
      and lo2: "\<exists>m. mc' = Some m \<and> m \<le> v"
      and att: "mc' = Some v \<or> (\<exists>k\<in>set ks. counts k = mc')"
      and st: "set ms' = (if mc' = Some v then set [k] else {}) \<union> {k \<in> set ks. counts k = mc'}"
      by auto
    from less v r have e: "find_least_loop (k # ks) counts mc ms = Inr (mc', ms')" by auto
    from lo2 obtain m where m: "mc' = Some m" "m \<le> v" by auto
    have ne: "mc' \<noteq> mc" using less m by (cases mc) auto
    show ?thesis
      unfolding e using lo lo2 att st v m ne less by (auto split: if_splits)
  next
    case eq
    from Cons.IH[OF rest, of mc "ms @ [k]"] obtain mc' ms' where
      r: "find_least_loop ks counts mc (ms @ [k]) = Inr (mc', ms')"
      and lo: "\<forall>k\<in>set ks. \<forall>v. counts k = Some v \<longrightarrow> (\<exists>m. mc' = Some m \<and> m \<le> v)"
      and lo2: "\<forall>c. mc = Some c \<longrightarrow> (\<exists>m. mc' = Some m \<and> m \<le> c)"
      and att: "mc' = mc \<or> (\<exists>k\<in>set ks. counts k = mc')"
      and st: "set ms' = (if mc' = mc then set (ms @ [k]) else {}) \<union> {k \<in> set ks. counts k = mc'}"
      by auto
    from eq v r have e: "find_least_loop (k # ks) counts mc ms = Inr (mc', ms')" by auto
    show ?thesis
      unfolding e using lo lo2 att st v eq by (auto split: if_splits)
  next
    case more
    then obtain c where c: "mc = Some c" "c < v" by auto
    from Cons.IH[OF rest, of mc ms] obtain mc' ms' where
      r: "find_least_loop ks counts mc ms = Inr (mc', ms')"
      and lo: "\<forall>k\<in>set ks. \<forall>v. counts k = Some v \<longrightarrow> (\<exists>m. mc' = Some m \<and> m \<le> v)"
      and lo2: "\<forall>c. mc = Some c \<longrightarrow> (\<exists>m. mc' = Some m \<and> m \<le> c)"
      and att: "mc' = mc \<or> (\<exists>k\<in>set ks. counts k = mc')"
      and st: "set ms' = (if mc' = mc then set ms else {}) \<union> {k \<in> set ks. counts k = mc'}"
      by auto
    from c v r have e: "find_least_loop (k # ks) counts mc ms = Inr (mc', ms')" by auto
    from lo2 c obtain m where m: "mc' = Some m" "m \<le> c" by auto
    show ?thesis
      unfolding e using lo lo2 att st v c m by (auto split: if_splits)
  qed
qed


lemma find_least_common_seqs_spec:
  assumes fin: "finite (dom (global_seq_count s))" and sub: "dom (global_seq_count s) \<subseteq> U"
    and pos: "\<forall>k v. global_seq_count s k = Some v \<longrightarrow> 1 \<le> v"
    and ne: "global_seq_count s \<noteq> Map.empty"
    and scan: "scan_complete U scan_iter"
  shows "\<exists>m seqs. find_least_common_seqs scan_iter s = Inr (Some m, seqs) \<and> seqs \<noteq> []
           \<and> set seqs = {k. global_seq_count s k = Some m}
           \<and> (\<forall>k v. global_seq_count s k = Some v \<longrightarrow> m \<le> v)"
proof -
  let ?c = "global_seq_count s"
  let ?ks = "scan_iter ?c"
  from scan fin sub have ks: "set ?ks = dom ?c" by (simp add: scan_complete_def)
  have "\<forall>k\<in>set ?ks. \<exists>v. ?c k = Some v \<and> v \<noteq> 0"
  proof
    fix k assume "k \<in> set ?ks"
    with ks obtain v where v: "?c k = Some v" by auto
    with pos have "1 \<le> v" by blast
    with v show "\<exists>v. ?c k = Some v \<and> v \<noteq> 0" by auto
  qed
  from find_least_loop_spec[OF this, of None "[]"] obtain mc' ms' where
    r: "find_least_loop ?ks ?c None [] = Inr (mc', ms')"
    and lo: "\<forall>k\<in>set ?ks. \<forall>v. ?c k = Some v \<longrightarrow> (\<exists>m. mc' = Some m \<and> m \<le> v)"
    and att: "mc' = None \<or> (\<exists>k\<in>set ?ks. ?c k = mc')"
    and st: "set ms' = (if mc' = None then set [] else {}) \<union> {k \<in> set ?ks. ?c k = mc'}"
    by blast
  from ne obtain k0 v0 where k0: "?c k0 = Some v0" by (metis not_Some_eq ext)
  with ks have "k0 \<in> set ?ks" by auto
  with lo k0 obtain m where m: "mc' = Some m" by blast
  with att obtain k1 where k1: "k1 \<in> set ?ks" "?c k1 = Some m" by auto
  from st m have st': "set ms' = {k. ?c k = Some m}" using ks by auto
  with k1 have "ms' \<noteq> []" by auto
  moreover have "\<forall>k v. ?c k = Some v \<longrightarrow> m \<le> v"
    using lo m ks by (metis domI option.inject)
  ultimately show ?thesis using r m st' by (auto simp: find_least_common_seqs_def)
qed

lemma update_least_step:
  assumes inv: "least_inv s"
    and scan: "scan_complete U scan_iter"
    and sub: "insert q (dom (global_seq_count s)) \<subseteq> U"
    and c2: "global_seq_count s2 = (global_seq_count s)(q \<mapsto> incr (global_seq_count s) q)"
    and l2: "analytics_least_common_seqs s2 = analytics_least_common_seqs s"
    and m2: "analytics_least_common_seq_count s2 = analytics_least_common_seq_count s"
  shows "\<exists>s'. update_least_common_seqs scan_iter s2 q (incr (global_seq_count s) q) = (Ok, s')
           \<and> least_inv s' \<and> global_seq_count s' = global_seq_count s2"
proof -
  let ?c = "global_seq_count s"
  let ?L = "analytics_least_common_seqs s"
  let ?n = "incr ?c q"
  from inv have fin: "finite (dom ?c)" and pos: "\<And>k v. ?c k = Some v \<Longrightarrow> 1 \<le> v"
    unfolding least_inv_def by auto
  have fin2: "finite (dom (global_seq_count s2))" using fin by (simp add: c2)
  have n1: "1 \<le> ?n" using pos[of q] by (auto simp: incr_def split: option.splits)
  have pos2: "\<forall>k v. global_seq_count s2 k = Some v \<longrightarrow> 1 \<le> v"
    using pos n1 by (auto simp: c2)
  show ?thesis
  proof (cases "analytics_least_common_seq_count s")
    case None
    with inv have e: "?c = Map.empty" by (simp add: least_inv_def)
    then have n: "?n = 1" by (simp add: incr_def)
    have c2': "global_seq_count s2 = ?c(q \<mapsto> 1)" using c2 n by simp
    have "{k. global_seq_count s2 k = Some 1} = {q}"
      by (auto simp: c2' e)
    moreover have "\<forall>k w. global_seq_count s2 k = Some w \<longrightarrow> 1 \<le> w"
      by (rule pos2)
    ultimately have "least_inv (s2\<lparr>analytics_least_common_seqs := {q},
                        analytics_least_common_seq_count := Some 1\<rparr>)"
      using fin2 pos2 by (simp add: least_inv_def)
    with None show ?thesis
      by (simp add: update_least_common_seqs_def m2 n)
  next
    case (Some m)
    note cm = this
    with inv have Lne: "?L \<noteq> {}" and L: "?L = {k. ?c k = Some m}"
      and low: "\<And>k v. ?c k = Some v \<Longrightarrow> m \<le> v"
      unfolding least_inv_def by auto
    have finL: "finite ?L" unfolding L using fin by (auto intro: finite_subset[OF _ fin])
    show ?thesis
    proof (cases "?c q")
      case None
      then have n: "?n = 1" by (simp add: incr_def)
      have c2': "global_seq_count s2 = ?c(q \<mapsto> 1)" using c2 n by simp
      from Lne L obtain k0 where "?c k0 = Some m" by auto
      from pos[OF this] have m1: "1 \<le> m" .
      show ?thesis
      proof (cases "m = 1")
        case True
        have "{k. global_seq_count s2 k = Some m} = insert q ?L"
          using None L True by (auto simp: c2')
        moreover have "\<forall>k w. global_seq_count s2 k = Some w \<longrightarrow> m \<le> w"
          using pos2 True by simp
        ultimately have "least_inv (s2\<lparr>analytics_least_common_seqs := insert q ?L\<rparr>)"
          using fin2 pos2 by (simp add: least_inv_def m2 cm)
        with True show ?thesis
          by (simp add: update_least_common_seqs_def m2 cm n l2)
      next
        case False
        with m1 have lt: "1 < m" by simp
        have "?c k \<noteq> Some 1" for k
          using low[of k 1] lt by auto
        then have "{k. global_seq_count s2 k = Some 1} = {q}"
          by (auto simp: c2')
        then have "least_inv (s2\<lparr>analytics_least_common_seqs := {q},
                                 analytics_least_common_seq_count := Some 1\<rparr>)"
          using fin2 pos2 by (simp add: least_inv_def)
        with lt show ?thesis
          by (simp add: update_least_common_seqs_def m2 cm n)
      qed
    next
      case (Some v)
      note v = this
      then have n: "?n = v + 1" by (simp add: incr_def)
      have c2': "global_seq_count s2 = ?c(q \<mapsto> v + 1)" using c2 n by simp
      from low[OF v] have mv: "m \<le> v" .
      show ?thesis
      proof (cases "q \<in> ?L")
        case False
        with L v mv have "m < v" by auto
        have "{k. global_seq_count s2 k = Some m} = ?L"
          unfolding L using \<open>m < v\<close> v by (auto simp: c2')
        moreover have "\<forall>k w. global_seq_count s2 k = Some w \<longrightarrow> m \<le> w"
          using low \<open>m < v\<close> by (auto simp: c2')
        ultimately have "least_inv s2"
          using Lne fin2 pos2 by (simp add: least_inv_def m2 cm l2)
        then show ?thesis using False \<open>m < v\<close>
          by (simp add: update_least_common_seqs_def m2 cm n l2)
      next
        case True
        with L v have vm: "v = m" by simp
        let ?s3 = "s2\<lparr>analytics_least_common_seqs := analytics_least_common_seqs s2 - {q}\<rparr>"
        show ?thesis
        proof (cases "?L - {q} = {}")
          case False
          then have card: "card (?L - {q}) \<noteq> 0" using finL by simp
          have "{k. global_seq_count s2 k = Some m} = ?L - {q}"
            unfolding L using vm v by (auto simp: c2')
          moreover have "\<forall>k v. global_seq_count s2 k = Some v \<longrightarrow> m \<le> v"
            using low vm by (auto simp: c2')
          ultimately have "least_inv ?s3"
            using False fin2 pos2 by (simp add: least_inv_def m2 cm l2)
          with card True vm show ?thesis
            by (simp add: update_least_common_seqs_def m2 cm n l2 Let_def)
        next
          case empty: True
          have card: "card (?L - {q}) = 0" unfolding empty by simp
          have c3: "global_seq_count ?s3 = global_seq_count s2" by simp
          have "global_seq_count ?s3 \<noteq> Map.empty" by (simp add: c2)
          moreover have "dom (global_seq_count ?s3) \<subseteq> U" using sub by (auto simp: c2)
          ultimately obtain m' seqs where
            f: "find_least_common_seqs scan_iter ?s3 = Inr (Some m', seqs)" "seqs \<noteq> []"
            and sq: "set seqs = {k. global_seq_count s2 k = Some m'}"
            and lo: "\<forall>k v. global_seq_count s2 k = Some v \<longrightarrow> m' \<le> v"
            using find_least_common_seqs_spec[of ?s3 U scan_iter] fin2 pos2 scan
            unfolding c3 by blast
          from f(2) sq have "{k. global_seq_count s2 k = Some m'} \<noteq> {}" by (metis set_empty)
          then have "least_inv (?s3\<lparr>analytics_least_common_seqs := set seqs,
                                     analytics_least_common_seq_count := Some m'\<rparr>)"
            using sq lo fin2 pos2 by (simp add: least_inv_def)
          with f card True vm show ?thesis
            by (simp add: update_least_common_seqs_def m2 cm n l2 Let_def)
        qed
      qed
    qed
  qed
qed


lemma update_most_common_seqs_least:
  "global_seq_count (update_most_common_seqs s q n) = global_seq_count s
   \<and> analytics_least_common_seqs (update_most_common_seqs s q n) = analytics_least_common_seqs s
   \<and> analytics_least_common_seq_count (update_most_common_seqs s q n)
       = analytics_least_common_seq_count s"
  by (simp add: update_most_common_seqs_def Let_def)

lemma least_inv_fresh: "least_inv empty_store"
  by (simp add: least_inv_def empty_store_def)

lemma update_common_seqs_least_inv:
  assumes "scan_complete U scan_iter" "least_inv s" "dom (global_seq_count s) \<subseteq> U" "set qs \<subseteq> U"
  shows "\<exists>s'. update_common_seqs scan_iter s qs = (Ok, s') \<and> least_inv s'
           \<and> (\<forall>k. global_seq_count s' k
                  = (if k \<in> set qs
                     then Some (counter_value (global_seq_count s) k + int (count_list qs k))
                     else global_seq_count s k))"
  using assms(2-)
proof (induction qs arbitrary: s)
  case Nil
  then show ?case by simp
next
  case (Cons q qs)
  let ?n = "incr (global_seq_count s) q"
  let ?s1 = "s\<lparr>global_seq_count := (global_seq_count s)(q \<mapsto> ?n)\<rparr>"
  let ?s2 = "update_most_common_seqs ?s1 q ?n"
  have "insert q (dom (global_seq_count s)) \<subseteq> U" using Cons.prems by simp
  from update_least_step[OF Cons.prems(1) assms(1) this, of ?s2]
  obtain s3 where u: "update_least_common_seqs scan_iter ?s2 q ?n = (Ok, s3)"
    and inv3: "least_inv s3"
    and c3: "global_seq_count s3 = (global_seq_count s)(q \<mapsto> ?n)"
    by (auto simp: update_most_common_seqs_least)
  have "dom (global_seq_count s3) \<subseteq> U" using Cons.prems by (auto simp: c3)
  from Cons.IH[OF inv3 this] Cons.prems obtain s' where
    r: "update_common_seqs scan_iter s3 qs = (Ok, s')" and inv': "least_inv s'"
    and c': "\<And>k. global_seq_count s' k
                  = (if k \<in> set qs
                     then Some (counter_value (global_seq_count s3) k + int (count_list qs k))
                     else global_seq_count s3 k)"
    by auto
  have e: "update_common_seqs scan_iter s (q # qs) = (Ok, s')"
    using u r by (simp add: Let_def)
  have "global_seq_count s' k
          = (if k \<in> set (q # qs)
             then Some (counter_value (global_seq_count s) k + int (count_list (q # qs) k))
             else global_seq_count s k)" for k
    unfolding c'[of k] c3
    by (auto simp: counter_value_def incr_def split: option.splits)
  with e inv' show ?case by blast
qed

text \<open>
  Claim C2. Let the scan return exactly the keys of the counters, and let the sequences
  be observed one after the other, each with the count just incremented, from a state in
  which the tracker is exact (the fresh database is one). Then no call raises, every
  counter has grown by the number of observations of its sequence, and after the last
  observation (so after each one) the tracker is exact again: the recorded count is the
  least of all counters and the recorded set, which is not empty, holds exactly the
  sequences whose counter equals that count. The rescan by itself, on any counters that
  are all at least 1, returns the least count and all the sequences that have it.
\<close>

theorem least_common_tracker_exact:
  assumes "scan_complete U scan_iter" "least_inv s"
    and "dom (global_seq_count s) \<subseteq> U" "set seqs \<subseteq> U"
  shows "(\<exists>s'. update_common_seqs scan_iter s seqs = (Ok, s') \<and> least_inv s'
            \<and> (\<forall>k. global_seq_count s' k
                   = (if k \<in> set seqs
                      then Some (counter_value (global_seq_count s) k + int (count_list seqs k))
                      else global_seq_count s k))
            \<and> (seqs \<noteq> [] \<longrightarrow>
                 (\<exists>m. analytics_least_common_seq_count s' = Some m
                    \<and> analytics_least_common_seqs s' = {k. global_seq_count s' k = Some m}
                    \<and> analytics_least_common_seqs s' \<noteq> {}
                    \<and> (\<forall>k v. global_seq_count s' k = Some v \<longrightarrow> m \<le> v))))
       \<and> (global_seq_count s \<noteq> Map.empty \<longrightarrow>
            (\<exists>m cohort. find_least_common_seqs scan_iter s = Inr (Some m, cohort)
               \<and> set cohort = {k. global_seq_count s k = Some m} \<and> cohort \<noteq> []
               \<and> (\<forall>k v. global_seq_count s k = Some v \<longrightarrow> m \<le> v)))"
proof -
  from update_common_seqs_least_inv[OF assms] obtain s' where
    r: "update_common_seqs scan_iter s seqs = (Ok, s')" and inv': "least_inv s'"
    and c': "\<forall>k. global_seq_count s' k
                  = (if k \<in> set seqs
                     then Some (counter_value (global_seq_count s) k + int (count_list seqs k))
                     else global_seq_count s k)"
    by blast
  have exact: "\<exists>m. analytics_least_common_seq_count s' = Some m
                    \<and> analytics_least_common_seqs s' = {k. global_seq_count s' k = Some m}
                    \<and> analytics_least_common_seqs s' \<noteq> {}
                    \<and> (\<forall>k v. global_seq_count s' k = Some v \<longrightarrow> m \<le> v)"
    if "seqs \<noteq> []"
  proof -
    from that obtain q where "q \<in> set seqs" by (cases seqs) auto
    with c' have "global_seq_count s' q \<noteq> None" by simp
    then have "global_seq_count s' \<noteq> Map.empty" by auto
    with inv' show ?thesis
      by (cases "analytics_least_common_seq_count s'") (auto simp: least_inv_def)
  qed
  have rescan: "\<exists>m cohort. find_least_common_seqs scan_iter s = Inr (Some m, cohort)
               \<and> set cohort = {k. global_seq_count s k = Some m} \<and> cohort \<noteq> []
               \<and> (\<forall>k v. global_seq_count s k = Some v \<longrightarrow> m \<le> v)"
    if ne: "global_seq_count s \<noteq> Map.empty"
  proof -
    from assms(2) have "finite (dom (global_seq_count s))"
      and "\<forall>k v. global_seq_count s k = Some v \<longrightarrow> 1 \<le> v"
      by (auto simp: least_inv_def)
    from find_least_common_seqs_spec[OF this(1) assms(3) this(2) ne assms(1)]
    show ?thesis by blast
  qed
  from r inv' c' exact rescan show ?thesis by blast
qed


lemma scan_among_complete: "scan_complete (set cs) (scan_among cs)"
  by (auto simp: scan_complete_def scan_among_def)

theorem least_common_tracker_exact_witness:
  "\<exists>s1 s2 cohort.
      update_common_seqs (scan_among [''X'', ''Y'']) empty_store [''X'', ''Y''] = (Ok, s1)
    \<and> analytics_least_common_seq_count s1 = Some 1
    \<and> analytics_least_common_seqs s1 = {''X'', ''Y''}
    \<and> find_least_common_seqs (scan_among [''X'', ''Y'']) s1 = Inr (Some 1, cohort)
    \<and> set cohort = {''X'', ''Y''}
    \<and> update_common_seqs (scan_among [''X'', ''Y'']) s1 [''X'', ''Y''] = (Ok, s2)
    \<and> analytics_least_common_seq_count s2 = Some 2
    \<and> analytics_least_common_seqs s2 = {''X'', ''Y''}"
proof -
  let ?scan = "scan_among [''X'', ''Y'']"
  let ?xy = "[''X'', ''Y'']"
  note sc = scan_among_complete[of ?xy]
  have d0: "dom (global_seq_count empty_store) \<subseteq> set ?xy"
    by (simp add: empty_store_def)
  have xy: "set ?xy \<subseteq> set ?xy" "?xy \<noteq> []" by simp_all
  from least_common_tracker_exact[OF sc least_inv_fresh d0 xy(1)] xy(2)
  obtain s1 m1 where
    r1: "update_common_seqs ?scan empty_store ?xy = (Ok, s1)" and inv1: "least_inv s1"
    and c1raw: "\<forall>k. global_seq_count s1 k
                  = (if k \<in> set ?xy
                     then Some (counter_value (global_seq_count empty_store) k + int (count_list ?xy k))
                     else global_seq_count empty_store k)"
    and m1: "analytics_least_common_seq_count s1 = Some m1"
    and l1: "analytics_least_common_seqs s1 = {k. global_seq_count s1 k = Some m1}"
    and ne1: "analytics_least_common_seqs s1 \<noteq> {}"
    by blast
  have c1: "global_seq_count s1 k = (if k = ''X'' \<or> k = ''Y'' then Some 1 else None)" for k
    using c1raw[rule_format, of k] by (auto simp: empty_store_def counter_value_def)
  from ne1 l1 obtain k where "global_seq_count s1 k = Some m1" by auto
  then have m1v: "m1 = 1" unfolding c1 by (auto split: if_splits)
  have L1: "analytics_least_common_seqs s1 = {''X'', ''Y''}"
    unfolding l1 m1v c1 by (auto split: if_splits)
  have d1: "dom (global_seq_count s1) \<subseteq> set ?xy"
    unfolding dom_def c1 by (auto split: if_splits)
  have n1: "global_seq_count s1 \<noteq> Map.empty"
  proof
    assume "global_seq_count s1 = Map.empty"
    then have "global_seq_count s1 ''X'' = None" by simp
    then show False unfolding c1 by simp
  qed
  from least_common_tracker_exact[OF sc inv1 d1 xy(1)] xy(2) n1
  obtain s2 m2 m cohort where
    r2: "update_common_seqs ?scan s1 ?xy = (Ok, s2)"
    and c2raw: "\<forall>k. global_seq_count s2 k
                 = (if k \<in> set ?xy
                    then Some (counter_value (global_seq_count s1) k + int (count_list ?xy k))
                    else global_seq_count s1 k)"
    and m2: "analytics_least_common_seq_count s2 = Some m2"
    and l2: "analytics_least_common_seqs s2 = {k. global_seq_count s2 k = Some m2}"
    and ne2: "analytics_least_common_seqs s2 \<noteq> {}"
    and f: "find_least_common_seqs ?scan s1 = Inr (Some m, cohort)"
    and co: "set cohort = {k. global_seq_count s1 k = Some m}" "cohort \<noteq> []"
    by blast
  have c2: "global_seq_count s2 k = (if k = ''X'' \<or> k = ''Y'' then Some 2 else None)" for k
    using c2raw[rule_format, of k] unfolding c1 by (auto simp: counter_value_def)
  from ne2 l2 obtain k2 where "global_seq_count s2 k2 = Some m2" by auto
  then have m2v: "m2 = 2" unfolding c2 by (auto split: if_splits)
  have L2: "analytics_least_common_seqs s2 = {''X'', ''Y''}"
    unfolding l2 m2v c2 by (auto split: if_splits)
  from co obtain k3 where "global_seq_count s1 k3 = Some m" by (cases cohort) auto
  then have mv: "m = 1" unfolding c1 by (auto split: if_splits)
  have C: "set cohort = {''X'', ''Y''}"
    unfolding co(1) mv c1 by (auto split: if_splits)
  from r1 m1 m1v L1 f mv C r2 m2 m2v L2 show ?thesis by blast
qed

subsection \<open>Friend groups and chains of links\<close>

lemma new_fid_fresh:
  "new_fid us s = Some g \<Longrightarrow> g \<in> set us \<and> global_friend_group s g = {}"
  by (induction us) (auto split: if_splits)

lemma new_fid_returns:
  "\<exists>u\<in>set us. global_friend_group s u = {} \<Longrightarrow> \<exists>g. new_fid us s = Some g"
  by (induction us) auto

lemma groups_inv_mem:
  assumes "groups_inv s"
  shows "(p \<in> global_friend_group s h) = (player_friend_group s p = Some h)"
    and "finite (global_friend_group s h)"
    and "global_friend_group s [] = {}"
    and "player_friend_group s p \<noteq> Some []"
  using assms unfolding groups_inv_def by auto

lemma link_step_none_none:
  assumes inv: "groups_inv s" and us: "[] \<notin> set us"
    and a: "player_friend_group s a = None" and b: "player_friend_group s b = None"
    and r: "update_friend_groups us s a b = Some (r, s')"
  shows "r = Ok \<and> linked_after s a b s'"
proof -
  from r a b obtain g where g: "new_fid us s = Some g"
    and s': "s' = s\<lparr> global_friend_group :=
                        (global_friend_group s)(g := global_friend_group s g \<union> {a, b}),
                      player_friend_group := (player_friend_group s)(a \<mapsto> g, b \<mapsto> g) \<rparr>"
    and ok: "r = Ok"
    by (auto simp: update_friend_groups_def split: option.splits)
  from new_fid_fresh[OF g] us have fresh: "global_friend_group s g = {}" and gne: "g \<noteq> []" by auto
  note mem = groups_inv_mem[OF inv]
  from fresh have nobody: "\<And>p. player_friend_group s p \<noteq> Some g"
    using mem(1)[of _ g] by auto
  have 1: "groups_inv s'"
    unfolding groups_inv_def s' using fresh gne a b mem(2,3) by (auto simp: mem(1))
  have ga: "group_of s a = {a}" and gb: "group_of s b = {b}"
    using a b by (auto simp: group_of_def same_group_def)
  have 2: "same_group s' p q \<longleftrightarrow>
             same_group s p q
             \<or> (p \<in> group_of s a \<union> group_of s b \<and> q \<in> group_of s a \<union> group_of s b)" for p q
    unfolding ga gb using nobody nobody[symmetric] a b unfolding same_group_def s' by auto
  have 3: "\<exists>h'. global_friend_group s h \<subseteq> global_friend_group s' h'" for h
    unfolding s' by (rule exI[of _ h]) auto
  from ok 1 2 3 show ?thesis unfolding linked_after_def by blast
qed


lemma join_group_linked:
  assumes inv: "groups_inv s"
    and a: "player_friend_group s a = Some g" and b: "player_friend_group s b = None"
  shows "linked_after s a b
           (s\<lparr> global_friend_group :=
                  (global_friend_group s)(g := insert b (global_friend_group s g)),
                player_friend_group := (player_friend_group s)(b \<mapsto> g) \<rparr>)"
    (is "linked_after s a b ?s'")
proof -
  note mem = groups_inv_mem[OF inv]
  from a mem(4)[of a] have gne: "g \<noteq> []" by auto
  have 1: "groups_inv ?s'"
    unfolding groups_inv_def using gne b mem(2,3) by (auto simp: mem(1))
  have ga: "group_of s a = {x. player_friend_group s x = Some g}"
    using a by (auto simp: group_of_def same_group_def)
  have gb: "group_of s b = {b}"
    using b by (auto simp: group_of_def same_group_def)
  have 2: "same_group ?s' p q \<longleftrightarrow>
             same_group s p q
             \<or> (p \<in> group_of s a \<union> group_of s b \<and> q \<in> group_of s a \<union> group_of s b)" for p q
  proof (cases "player_friend_group s p"; cases "player_friend_group s q")
  qed (use b in \<open>auto simp: ga gb same_group_def\<close>)
  have 3: "\<exists>h'. global_friend_group s h \<subseteq> global_friend_group ?s' h'" for h
    by (rule exI[of _ h]) auto
  from 1 2 3 show ?thesis unfolding linked_after_def by blast
qed

lemma linked_after_commute: "linked_after s a b s' \<Longrightarrow> linked_after s b a s'"
  unfolding linked_after_def by (simp add: Un_commute)


lemma same_group_linked:
  assumes inv: "groups_inv s"
    and a: "player_friend_group s a = Some g" and b: "player_friend_group s b = Some g"
  shows "linked_after s a b s"
proof -
  have ga: "group_of s a = {x. player_friend_group s x = Some g}"
    using a by (auto simp: group_of_def same_group_def)
  have gb: "group_of s b = {x. player_friend_group s x = Some g}"
    using b by (auto simp: group_of_def same_group_def)
  have "same_group s p q"
    if "p \<in> group_of s a \<union> group_of s b" "q \<in> group_of s a \<union> group_of s b" for p q
    using that unfolding ga gb by (simp add: same_group_def)
  then show ?thesis unfolding linked_after_def using inv by blast
qed

lemma merge_linked:
  assumes inv: "groups_inv s"
    and big: "player_friend_group s x = Some big" and small: "player_friend_group s y = Some small"
    and ne: "big \<noteq> small"
  shows "linked_after s x y
           (s\<lparr> global_friend_group :=
                  ((global_friend_group s)
                     (big := global_friend_group s big \<union> global_friend_group s small))(small := {}),
                player_friend_group :=
                  (\<lambda>m. if m \<in> global_friend_group s small then Some big
                       else player_friend_group s m) \<rparr>)"
    (is "linked_after s x y ?s'")
proof -
  note mem = groups_inv_mem[OF inv]
  from big small mem(4)[of x] mem(4)[of y] have bne: "big \<noteq> []" "small \<noteq> []" by auto
  have 1: "groups_inv ?s'"
    unfolding groups_inv_def using ne bne mem(2,3) by (auto simp: mem(1))
  have C: "group_of s x \<union> group_of s y
             = {z. player_friend_group s z = Some big \<or> player_friend_group s z = Some small}"
    using big small by (auto simp: group_of_def same_group_def)
  have 2: "same_group ?s' p q \<longleftrightarrow>
             same_group s p q
             \<or> (p \<in> group_of s x \<union> group_of s y \<and> q \<in> group_of s x \<union> group_of s y)" for p q
    unfolding C using ne by (auto simp: same_group_def mem(1))
  have 3: "\<exists>h'. global_friend_group s h \<subseteq> global_friend_group ?s' h'" for h
  proof (cases "h = small")
    case True
    show ?thesis by (rule exI[of _ big]) (use ne True in auto)
  next
    case False
    show ?thesis by (rule exI[of _ h]) (use False in auto)
  qed
  from 1 2 3 show ?thesis unfolding linked_after_def by blast
qed


lemma merge_result:
  assumes inv: "groups_inv s"
    and a: "player_friend_group s a = Some g1" and b: "player_friend_group s b = Some g2"
    and ne: "g1 \<noteq> g2"
    and r: "update_friend_groups us s a b = Some (r, s')"
  shows "\<exists>big small x y.
           {big, small} = {g1, g2} \<and> big \<noteq> small \<and> {x, y} = {a, b}
           \<and> player_friend_group s x = Some big \<and> player_friend_group s y = Some small
           \<and> card (global_friend_group s small) \<le> card (global_friend_group s big)
           \<and> r = Ok
           \<and> s' = s\<lparr> global_friend_group :=
                        ((global_friend_group s)
                           (big := global_friend_group s big \<union> global_friend_group s small))
                          (small := {}),
                      player_friend_group :=
                        (\<lambda>m. if m \<in> global_friend_group s small then Some big
                             else player_friend_group s m) \<rparr>"
proof -
  note mem = groups_inv_mem[OF inv]
  have ma: "a \<in> global_friend_group s g1" and mb: "b \<in> global_friend_group s g2"
    using a b by (simp_all add: mem(1))
  from ma mb have n1: "global_friend_group s g1 \<noteq> {}" and n2: "global_friend_group s g2 \<noteq> {}"
    by auto
  show ?thesis
  proof (cases "card (global_friend_group s g1) \<ge> card (global_friend_group s g2)")
    case True
    with r a b ne n2 have "r = Ok"
      and "s' = s\<lparr> global_friend_group :=
                        ((global_friend_group s)
                           (g1 := global_friend_group s g1 \<union> global_friend_group s g2))
                          (g2 := {}),
                      player_friend_group :=
                        (\<lambda>m. if m \<in> global_friend_group s g2 then Some g1
                             else player_friend_group s m) \<rparr>"
      by (auto simp: update_friend_groups_def Let_def)
    with True a b ne show ?thesis
      by (intro exI[of _ g1] exI[of _ g2] exI[of _ a] exI[of _ b]) simp
  next
    case False
    with r a b ne n1 have "r = Ok"
      and "s' = s\<lparr> global_friend_group :=
                        ((global_friend_group s)
                           (g2 := global_friend_group s g2 \<union> global_friend_group s g1))
                          (g1 := {}),
                      player_friend_group :=
                        (\<lambda>m. if m \<in> global_friend_group s g1 then Some g2
                             else player_friend_group s m) \<rparr>"
      by (auto simp: update_friend_groups_def Let_def)
    with False a b ne show ?thesis
      by (intro exI[of _ g2] exI[of _ g1] exI[of _ b] exI[of _ a]) auto
  qed
qed

lemma link_step:
  assumes inv: "groups_inv s" and us: "[] \<notin> set us"
    and r: "update_friend_groups us s a b = Some (r, s')"
  shows "r = Ok \<and> linked_after s a b s'"
proof -
  note mem = groups_inv_mem[OF inv]
  consider (nn) "player_friend_group s a = None" "player_friend_group s b = None"
    | (sn) g where "player_friend_group s a = Some g" "player_friend_group s b = None"
    | (ns) g where "player_friend_group s a = None" "player_friend_group s b = Some g"
    | (same) g where "player_friend_group s a = Some g" "player_friend_group s b = Some g"
    | (diff) g1 g2 where "player_friend_group s a = Some g1" "player_friend_group s b = Some g2"
        "g1 \<noteq> g2"
    by (cases "player_friend_group s a"; cases "player_friend_group s b") auto
  then show ?thesis
  proof cases
    case nn
    from link_step_none_none[OF inv us nn r] show ?thesis .
  next
    case sn
    from sn(1) mem(4)[of a] have "g \<noteq> []" by auto
    with r sn have "r = Ok"
      and "s' = s\<lparr> global_friend_group :=
                      (global_friend_group s)(g := insert b (global_friend_group s g)),
                    player_friend_group := (player_friend_group s)(b \<mapsto> g) \<rparr>"
      by (auto simp: update_friend_groups_def)
    with join_group_linked[OF inv sn] show ?thesis by simp
  next
    case ns
    from r ns have "r = Ok"
      and "s' = s\<lparr> global_friend_group :=
                      (global_friend_group s)(g := insert a (global_friend_group s g)),
                    player_friend_group := (player_friend_group s)(a \<mapsto> g) \<rparr>"
      by (auto simp: update_friend_groups_def)
    with linked_after_commute[OF join_group_linked[OF inv ns(2) ns(1)]] show ?thesis by simp
  next
    case same
    from r same have "r = Ok" "s' = s" by (auto simp: update_friend_groups_def)
    with same_group_linked[OF inv same] show ?thesis by simp
  next
    case diff
    from merge_result[OF inv diff r] obtain big small x y where
      xy: "{x, y} = {a, b}" and bs: "big \<noteq> small"
      and px: "player_friend_group s x = Some big" and py: "player_friend_group s y = Some small"
      and ok: "r = Ok"
      and s': "s' = s\<lparr> global_friend_group :=
                        ((global_friend_group s)
                           (big := global_friend_group s big \<union> global_friend_group s small))
                          (small := {}),
                      player_friend_group :=
                        (\<lambda>m. if m \<in> global_friend_group s small then Some big
                             else player_friend_group s m) \<rparr>"
      by blast
    have l: "linked_after s x y s'" unfolding s' by (rule merge_linked[OF inv px py bs])
    from xy have "(x = a \<and> y = b) \<or> (x = b \<and> y = a)" by (auto simp: doubleton_eq_iff)
    with l linked_after_commute[OF l] have "linked_after s a b s'" by auto
    with ok show ?thesis by simp
  qed
qed


lemma trancl_add_edge:
  fixes S :: "('a \<times> 'a) set" and a b :: 'a
  assumes symS: "sym S"
  defines "C \<equiv> insert a {q. (a, q) \<in> S\<^sup>+} \<union> insert b {q. (b, q) \<in> S\<^sup>+}"
  shows "(p, q) \<in> (insert (a, b) (insert (b, a) S))\<^sup>+ \<longleftrightarrow> (p, q) \<in> S\<^sup>+ \<or> (p \<in> C \<and> q \<in> C)"
proof
  let ?S' = "insert (a, b) (insert (b, a) S)"
  let ?T = "S\<^sup>+ \<union> C \<times> C"
  have symT: "sym (S\<^sup>+)" using symS by (rule sym_trancl)
  have closed: "y \<in> C" if xC: "x \<in> C" and xy: "(x, y) \<in> S\<^sup>+" for x y
  proof -
    from xC consider "x = a" | "(a, x) \<in> S\<^sup>+" | "x = b" | "(b, x) \<in> S\<^sup>+"
      unfolding C_def by blast
    then show ?thesis
    proof cases
      case 1 with xy show ?thesis unfolding C_def by simp
    next
      case 2
      from trancl_trans[OF this xy] show ?thesis unfolding C_def by simp
    next
      case 3 with xy show ?thesis unfolding C_def by simp
    next
      case 4
      from trancl_trans[OF this xy] show ?thesis unfolding C_def by simp
    qed
  qed
  have closed': "x \<in> C" if "y \<in> C" "(x, y) \<in> S\<^sup>+" for x y
  proof -
    from that(2) symT have "(y, x) \<in> S\<^sup>+" by (rule symD[rotated])
    with that(1) show ?thesis by (rule closed)
  qed
  have "trans ?T"
  proof (rule transI)
    fix x y z assume xy: "(x, y) \<in> ?T" and yz: "(y, z) \<in> ?T"
    show "(x, z) \<in> ?T"
    proof (cases "(x, y) \<in> S\<^sup>+")
      case True
      note xyS = this
      show ?thesis
      proof (cases "(y, z) \<in> S\<^sup>+")
        case True
        from trancl_trans[OF xyS this] show ?thesis by simp
      next
        case False
        with yz have "y \<in> C" "z \<in> C" by simp_all
        with closed'[OF this(1) xyS] show ?thesis by simp
      qed
    next
      case False
      with xy have xC: "x \<in> C" and yC: "y \<in> C" by simp_all
      show ?thesis
      proof (cases "(y, z) \<in> S\<^sup>+")
        case True
        from closed[OF yC this] xC show ?thesis by simp
      next
        case False
        with yz have "z \<in> C" by simp
        with xC show ?thesis by simp
      qed
    qed
  qed
  then have "?T\<^sup>+ = ?T" by (rule trancl_id)
  moreover have "?S' \<subseteq> ?T"
  proof
    fix e assume "e \<in> ?S'"
    then consider "e = (a, b)" | "e = (b, a)" | "e \<in> S" by blast
    then show "e \<in> ?T"
    proof cases
      case 1 then show ?thesis unfolding C_def by simp
    next
      case 2 then show ?thesis unfolding C_def by simp
    next
      case 3 then show ?thesis by (cases e) (simp add: r_into_trancl')
    qed
  qed
  then have "?S'\<^sup>+ \<subseteq> ?T\<^sup>+" by (rule trancl_mono_subset)
  ultimately have sub: "?S'\<^sup>+ \<subseteq> ?T" by simp
  show "(p, q) \<in> S\<^sup>+ \<or> (p \<in> C \<and> q \<in> C)" if "(p, q) \<in> ?S'\<^sup>+"
    using that sub by blast
  show "(p, q) \<in> ?S'\<^sup>+" if h: "(p, q) \<in> S\<^sup>+ \<or> (p \<in> C \<and> q \<in> C)"
  proof -
    have "S \<subseteq> ?S'" by blast
    then have SS: "S\<^sup>+ \<subseteq> ?S'\<^sup>+" by (rule trancl_mono_subset)
    have mono: "(x, y) \<in> ?S'\<^sup>*" if "(x, y) \<in> S\<^sup>+" for x y
      using that SS by (meson subsetD trancl_into_rtrancl)
    have ab: "(a, b) \<in> ?S'\<^sup>*" and ba: "(b, a) \<in> ?S'\<^sup>*"
      by (rule r_into_rtrancl, simp)+
    have "(a, b) \<in> ?S'" "(b, a) \<in> ?S'" by simp_all
    then have aa: "(a, a) \<in> ?S'\<^sup>+" by (meson r_into_trancl' trancl_trans)
    have from_a: "(a, x) \<in> ?S'\<^sup>*" if "x \<in> C" for x
    proof -
      from that consider "x = a" | "(a, x) \<in> S\<^sup>+" | "x = b" | "(b, x) \<in> S\<^sup>+"
        unfolding C_def by blast
      then show ?thesis
      proof cases
        case 1 then show ?thesis by simp
      next
        case 2 then show ?thesis by (rule mono)
      next
        case 3 with ab show ?thesis by simp
      next
        case 4
        then have "(b, x) \<in> ?S'\<^sup>*" by (rule mono)
        with ab show ?thesis by (rule rtrancl_trans)
      qed
    qed
    have to_a: "(x, a) \<in> ?S'\<^sup>*" if "x \<in> C" for x
    proof -
      from that consider "x = a" | "(a, x) \<in> S\<^sup>+" | "x = b" | "(b, x) \<in> S\<^sup>+"
        unfolding C_def by blast
      then show ?thesis
      proof cases
        case 1 then show ?thesis by simp
      next
        case 2
        with symT have "(x, a) \<in> S\<^sup>+" by (rule symD)
        then show ?thesis by (rule mono)
      next
        case 3 with ba show ?thesis by simp
      next
        case 4
        with symT have "(x, b) \<in> S\<^sup>+" by (rule symD)
        then have "(x, b) \<in> ?S'\<^sup>*" by (rule mono)
        then show ?thesis using ba by (rule rtrancl_trans)
      qed
    qed
    from h show ?thesis
    proof
      assume "(p, q) \<in> S\<^sup>+"
      with SS show ?thesis by blast
    next
      assume "p \<in> C \<and> q \<in> C"
      then have "(p, a) \<in> ?S'\<^sup>*" "(a, q) \<in> ?S'\<^sup>*" using to_a from_a by simp_all
      with aa show ?thesis by (meson rtrancl_trancl_trancl trancl_rtrancl_trancl)
    qed
  qed
qed


lemma links_Cons: "links ((a, b, us) # evs) = insert (a, b) (links evs)"
  by (simp add: links_def)

lemma link_all_chain:
  assumes "groups_inv s"
    and "\<forall>p q. same_group s p q \<longleftrightarrow> (p, q) \<in> (E \<union> E\<inverse>)\<^sup>+"
    and "\<forall>e\<in>set evs. [] \<notin> set (snd (snd e))"
    and "link_all s evs = Some s'"
  shows "groups_inv s'
       \<and> (\<forall>p q. same_group s' p q \<longleftrightarrow> (p, q) \<in> ((E \<union> links evs) \<union> (E \<union> links evs)\<inverse>)\<^sup>+)"
  using assms
proof (induction evs arbitrary: s E)
  case Nil
  then show ?case by (simp add: links_def)
next
  case (Cons ev evs)
  obtain a b us where ev: "ev = (a, b, us)" by (cases ev) auto
  from Cons.prems(3) ev have us: "[] \<notin> set us" by simp
  from Cons.prems(4) ev obtain r s1 where
    u: "update_friend_groups us s a b = Some (r, s1)" and rest: "link_all s1 evs = Some s'"
    by (auto split: option.splits)
  from link_step[OF Cons.prems(1) us u] have la: "linked_after s a b s1" by simp
  then have inv1: "groups_inv s1" by (simp add: linked_after_def)
  let ?S = "E \<union> E\<inverse>"
  have symS: "sym ?S" by (auto simp: sym_def)
  have go: "group_of s x = insert x {q. (x, q) \<in> ?S\<^sup>+}" for x
    using Cons.prems(2) by (simp add: group_of_def)
  have e1: "(insert (a, b) E) \<union> (insert (a, b) E)\<inverse> = insert (a, b) (insert (b, a) ?S)"
    by auto
  have same1: "same_group s1 p q \<longleftrightarrow> (p, q) \<in> ((insert (a, b) E) \<union> (insert (a, b) E)\<inverse>)\<^sup>+" for p q
  proof -
    from la have "same_group s1 p q \<longleftrightarrow>
        same_group s p q
        \<or> (p \<in> group_of s a \<union> group_of s b \<and> q \<in> group_of s a \<union> group_of s b)"
      by (simp add: linked_after_def)
    also have "\<dots> \<longleftrightarrow> (p, q) \<in> (insert (a, b) (insert (b, a) ?S))\<^sup>+"
      unfolding trancl_add_edge[OF symS, of p q a b] go using Cons.prems(2) by simp
    finally show ?thesis unfolding e1 .
  qed
  from Cons.prems(3) have uss: "\<forall>e\<in>set evs. [] \<notin> set (snd (snd e))" by simp
  from Cons.IH[OF inv1 _ uss rest, of "insert (a, b) E"] same1
  have "groups_inv s'
       \<and> (\<forall>p q. same_group s' p q \<longleftrightarrow>
              (p, q) \<in> ((insert (a, b) E \<union> links evs) \<union> (insert (a, b) E \<union> links evs)\<inverse>)\<^sup>+)"
    by blast
  moreover have "insert (a, b) E \<union> links evs = E \<union> links (ev # evs)"
    by (simp add: ev links_Cons)
  ultimately show ?case by metis
qed

lemma groups_inv_fresh: "groups_inv empty_store"
  by (simp add: groups_inv_def empty_store_def)

lemma update_friend_groups_returns:
  assumes "\<exists>u\<in>set us. global_friend_group s u = {}"
  shows "update_friend_groups us s a b \<noteq> None"
proof -
  from new_fid_returns[OF assms] obtain g where "new_fid us s = Some g" by blast
  then show ?thesis
    by (auto simp: update_friend_groups_def Let_def split: option.splits prod.splits)
qed


lemma merge_facts:
  assumes inv: "groups_inv s"
    and a: "player_friend_group s a = Some g1" and b: "player_friend_group s b = Some g2"
    and ne: "g1 \<noteq> g2"
    and r: "update_friend_groups us s a b = Some (r, s')"
  shows "\<exists>big small. {big, small} = {g1, g2} \<and> big \<noteq> small
           \<and> card (global_friend_group s small) \<le> card (global_friend_group s big)
           \<and> global_friend_group s' big = global_friend_group s big \<union> global_friend_group s small
           \<and> (\<forall>m\<in>global_friend_group s small. player_friend_group s' m = Some big)
           \<and> global_friend_group s' small = {}
           \<and> (\<forall>h. h \<noteq> big \<and> h \<noteq> small \<longrightarrow> global_friend_group s' h = global_friend_group s h)
           \<and> (\<forall>m. m \<notin> global_friend_group s small \<longrightarrow>
                  player_friend_group s' m = player_friend_group s m)"
proof -
  from merge_result[OF inv a b ne r] obtain big small where
    bs: "{big, small} = {g1, g2}" "big \<noteq> small"
    and c: "card (global_friend_group s small) \<le> card (global_friend_group s big)"
    and s': "s' = s\<lparr> global_friend_group :=
                        ((global_friend_group s)
                           (big := global_friend_group s big \<union> global_friend_group s small))
                          (small := {}),
                      player_friend_group :=
                        (\<lambda>m. if m \<in> global_friend_group s small then Some big
                             else player_friend_group s m) \<rparr>"
    by blast
  show ?thesis
    by (rule exI[of _ big], rule exI[of _ small]) (use bs c in \<open>simp add: s'\<close>)
qed

text \<open>
  Claim C4. Take any sequence of links on a fresh database, the generator of group ids
  never handing out the empty string. After it two players are in the same friend
  group exactly when a chain of one or more links connects them, and every player points
  to the group it is a member of. From that state, a further link that returns does not
  raise, and the members of each group are together in a group afterwards (at most the
  group changes: no group loses a member otherwise); when the two players are in different
  groups, the members of the group that is not the larger one are added to the other, each
  of them points to the other group afterwards, the emptied group is gone, and no other
  group or pointer changes. A link returns whenever the generator offers an id that no
  group has.
\<close>

theorem friend_groups_follow_links:
  assumes "link_all empty_store evs = Some s"
    and "\<forall>e\<in>set evs. [] \<notin> set (snd (snd e))"
  shows "(\<forall>p q. same_group s p q \<longleftrightarrow> chain evs p q)
       \<and> (\<forall>p g. player_friend_group s p = Some g \<longleftrightarrow> p \<in> global_friend_group s g)
       \<and> (\<forall>a b us r s'. [] \<notin> set us \<and> update_friend_groups us s a b = Some (r, s') \<longrightarrow>
            r = Ok
            \<and> (\<forall>g. \<exists>g'. global_friend_group s g \<subseteq> global_friend_group s' g')
            \<and> (\<forall>g1 g2. player_friend_group s a = Some g1 \<and> player_friend_group s b = Some g2
                        \<and> g1 \<noteq> g2 \<longrightarrow>
                 (\<exists>big small. {big, small} = {g1, g2} \<and> big \<noteq> small
                    \<and> card (global_friend_group s small) \<le> card (global_friend_group s big)
                    \<and> global_friend_group s' big
                        = global_friend_group s big \<union> global_friend_group s small
                    \<and> (\<forall>m\<in>global_friend_group s small. player_friend_group s' m = Some big)
                    \<and> global_friend_group s' small = {}
                    \<and> (\<forall>h. h \<noteq> big \<and> h \<noteq> small \<longrightarrow>
                           global_friend_group s' h = global_friend_group s h)
                    \<and> (\<forall>m. m \<notin> global_friend_group s small \<longrightarrow>
                           player_friend_group s' m = player_friend_group s m))))
       \<and> (\<forall>a b us. (\<exists>u\<in>set us. global_friend_group s u = {}) \<longrightarrow>
            update_friend_groups us s a b \<noteq> None)"
proof -
  have "\<forall>p q. same_group empty_store p q \<longleftrightarrow> (p, q) \<in> ({} \<union> {}\<inverse>)\<^sup>+"
    by (simp add: same_group_def empty_store_def)
  from link_all_chain[OF groups_inv_fresh this assms(2) assms(1)]
  have inv: "groups_inv s" and ch: "\<forall>p q. same_group s p q \<longleftrightarrow> chain evs p q"
    by (simp_all add: chain_def)
  from inv have mem: "\<forall>p g. player_friend_group s p = Some g \<longleftrightarrow> p \<in> global_friend_group s g"
    by (simp add: groups_inv_def)
  have step: "r = Ok
            \<and> (\<forall>g. \<exists>g'. global_friend_group s g \<subseteq> global_friend_group s' g')
            \<and> (\<forall>g1 g2. player_friend_group s a = Some g1 \<and> player_friend_group s b = Some g2
                        \<and> g1 \<noteq> g2 \<longrightarrow>
                 (\<exists>big small. {big, small} = {g1, g2} \<and> big \<noteq> small
                    \<and> card (global_friend_group s small) \<le> card (global_friend_group s big)
                    \<and> global_friend_group s' big
                        = global_friend_group s big \<union> global_friend_group s small
                    \<and> (\<forall>m\<in>global_friend_group s small. player_friend_group s' m = Some big)
                    \<and> global_friend_group s' small = {}
                    \<and> (\<forall>h. h \<noteq> big \<and> h \<noteq> small \<longrightarrow>
                           global_friend_group s' h = global_friend_group s h)
                    \<and> (\<forall>m. m \<notin> global_friend_group s small \<longrightarrow>
                           player_friend_group s' m = player_friend_group s m)))"
    if "[] \<notin> set us" "update_friend_groups us s a b = Some (r, s')" for a b us r s'
  proof -
    from link_step[OF inv that] have 1: "r = Ok"
      and 2: "\<forall>g. \<exists>g'. global_friend_group s g \<subseteq> global_friend_group s' g'"
      by (simp_all add: linked_after_def)
    have 3: "\<exists>big small. {big, small} = {g1, g2} \<and> big \<noteq> small
                    \<and> card (global_friend_group s small) \<le> card (global_friend_group s big)
                    \<and> global_friend_group s' big
                        = global_friend_group s big \<union> global_friend_group s small
                    \<and> (\<forall>m\<in>global_friend_group s small. player_friend_group s' m = Some big)
                    \<and> global_friend_group s' small = {}
                    \<and> (\<forall>h. h \<noteq> big \<and> h \<noteq> small \<longrightarrow>
                           global_friend_group s' h = global_friend_group s h)
                    \<and> (\<forall>m. m \<notin> global_friend_group s small \<longrightarrow>
                           player_friend_group s' m = player_friend_group s m)"
      if "player_friend_group s a = Some g1" "player_friend_group s b = Some g2" "g1 \<noteq> g2"
      for g1 g2
      using merge_facts[OF inv that \<open>update_friend_groups us s a b = Some (r, s')\<close>] .
    show ?thesis
      apply (intro conjI allI impI)
        apply (rule 1)
       apply (rule 2[rule_format])
      apply (elim conjE)
      apply (rule 3)
        apply assumption+
      done
  qed
  have ret: "update_friend_groups us s a b \<noteq> None"
    if "\<exists>u\<in>set us. global_friend_group s u = {}" for a b us
    using that by (rule update_friend_groups_returns)
  show ?thesis
    apply (intro conjI)
       apply (rule ch)
      apply (rule mem)
     apply (intro allI impI)
     apply (elim conjE)
     apply (rule step)
      apply assumption+
    apply (intro allI impI)
    apply (rule ret)
    apply assumption
    done
qed


lemma scenario_links_two:
  "\<exists>s2. link_all empty_store (take 2 scenario_links) = Some s2
      \<and> player_friend_group s2 ''a'' = Some ''f1'' \<and> player_friend_group s2 ''b'' = Some ''f1''
      \<and> player_friend_group s2 ''c'' = Some ''f2'' \<and> player_friend_group s2 ''d'' = Some ''f2''
      \<and> global_friend_group s2 ''f1'' = {''a'', ''b''}
      \<and> global_friend_group s2 ''f2'' = {''c'', ''d''}
      \<and> (\<exists>s3. update_friend_groups [] s2 ''b'' ''d'' = Some (Ok, s3)
             \<and> global_friend_group s3 ''f1'' = {''a'', ''b'', ''c'', ''d''}
             \<and> player_friend_group s3 ''c'' = Some ''f1'')"
  by (simp add: scenario_links_def update_friend_groups_def empty_store_def Let_def insert_commute)

theorem friend_groups_follow_links_witness:
  "\<exists>s2 s3. link_all empty_store (take 2 scenario_links) = Some s2
      \<and> same_group s2 ''a'' ''b'' \<and> chain (take 2 scenario_links) ''a'' ''b''
      \<and> \<not> same_group s2 ''a'' ''c'' \<and> \<not> chain (take 2 scenario_links) ''a'' ''c''
      \<and> update_friend_groups [] s2 ''b'' ''d'' = Some (Ok, s3)
      \<and> (\<exists>big small. {big, small} = {''f1'', ''f2''}
             \<and> global_friend_group s3 big = global_friend_group s2 big \<union> global_friend_group s2 small
             \<and> global_friend_group s3 small = {})
      \<and> global_friend_group s3 ''f1'' = {''a'', ''b'', ''c'', ''d''}"
proof -
  from scenario_links_two obtain s2 s3 where
    l: "link_all empty_store (take 2 scenario_links) = Some s2"
    and p: "player_friend_group s2 ''a'' = Some ''f1''" "player_friend_group s2 ''b'' = Some ''f1''"
      "player_friend_group s2 ''c'' = Some ''f2''" "player_friend_group s2 ''d'' = Some ''f2''"
    and u: "update_friend_groups [] s2 ''b'' ''d'' = Some (Ok, s3)"
    and g3: "global_friend_group s3 ''f1'' = {''a'', ''b'', ''c'', ''d''}"
    by (elim exE conjE) (rule that; assumption)
  have h: "\<forall>e\<in>set (take 2 scenario_links). [] \<notin> set (snd (snd e))"
    by (simp add: scenario_links_def)
  note t = friend_groups_follow_links[OF l h]
  note ch = t[THEN conjunct1, rule_format]
  note step = t[THEN conjunct2, THEN conjunct2, THEN conjunct1, rule_format]
  have sab: "same_group s2 ''a'' ''b''" and sac: "\<not> same_group s2 ''a'' ''c''"
    using p by (simp_all add: same_group_def)
  have cab: "chain (take 2 scenario_links) ''a'' ''b''" using sab unfolding ch .
  have cac: "\<not> chain (take 2 scenario_links) ''a'' ''c''" using sac unfolding ch .
  have pre: "[] \<notin> set [] \<and> update_friend_groups [] s2 ''b'' ''d'' = Some (Ok, s3)"
    using u by simp
  have bd: "player_friend_group s2 ''b'' = Some ''f1'' \<and> player_friend_group s2 ''d'' = Some ''f2''
            \<and> ''f1'' \<noteq> ''f2''"
    using p by simp
  from step[OF pre, THEN conjunct2, THEN conjunct2, rule_format, OF bd]
  obtain big small where m1: "{big, small} = {''f1'', ''f2''}"
    and m2: "global_friend_group s3 big = global_friend_group s2 big \<union> global_friend_group s2 small"
    and m3: "global_friend_group s3 small = {}"
    by (elim exE conjE) (rule that; assumption)
  have m: "\<exists>big small. {big, small} = {''f1'', ''f2''}
             \<and> global_friend_group s3 big = global_friend_group s2 big \<union> global_friend_group s2 small
             \<and> global_friend_group s3 small = {}"
    by (rule exI[of _ big], rule exI[of _ small]) (intro conjI m1 m2 m3)
  show ?thesis
    by (rule exI[of _ s2], rule exI[of _ s3]) (intro conjI l sab cab sac cac u m g3)
qed

subsection \<open>The leaderboard: the invariant of the list\<close>

lemma update_result_keys_win:
  assumes "winner g = color"
  shows "(player_wins (snd (update_result_keys s g color p opp_color)),
          analytics_top_wins (snd (update_result_keys s g color p opp_color)))
         = record_win (player_wins s, analytics_top_wins s) p"
  using assms
  by (simp add: update_result_keys_def update_top_list_def record_win_def Let_def split: prod.splits)

lemma update_result_keys_loss:
  assumes "winner g \<noteq> color" "winner g = opp_color"
  shows "(player_losses (snd (update_result_keys s g color p opp_color)),
          analytics_top_losses (snd (update_result_keys s g color p opp_color)))
         = record_win (player_losses s, analytics_top_losses s) p"
  using assms
  by (simp add: update_result_keys_def update_top_list_def record_win_def Let_def split: prod.splits)

lemma find_insert_before_no_colon:
  assumes "\<forall>e\<in>set items. CHR '':'' \<notin> set (fst e)"
  shows "\<exists>r. find_insert_before items n = Inr r"
  using assms by (induction items) (auto simp: split_entry_def)

lemma update_top_entries_no_colon:
  assumes "\<forall>e\<in>set lst. CHR '':'' \<notin> set (fst e)"
  shows "update_top_entries lst p n = (Ok, take 10 (insert_desc (lrem lst (p, n - 1)) (p, n) n))"
proof -
  have "\<forall>e\<in>set (lrem lst (p, n - 1)). CHR '':'' \<notin> set (fst e)"
    using assms by (simp add: lrem_def)
  from find_insert_before_no_colon[OF this, of n]
  have "fst (update_top_entries lst p n) = Ok"
    by (auto simp: update_top_entries_def Let_def split: option.splits)
  then show ?thesis
    using update_top_entries_Ok[of lst p n "snd (update_top_entries lst p n)"]
    by (metis prod.collapse)
qed

lemma set_insert_desc: "set (insert_desc items v n) = insert v (set items)"
  by (induction items) (auto simp: insert_desc_def)

lemma length_insert_desc: "length (insert_desc items v n) = Suc (length items)"
  by (induction items) (auto simp: insert_desc_def)

lemma distinct_insert_desc:
  assumes "distinct (map fst items)" "fst v \<notin> fst ` set items"
  shows "distinct (map fst (insert_desc items v n))"
  using assms
proof (induction items)
  case Nil
  then show ?case by (simp add: insert_desc_def)
next
  case (Cons x xs)
  then have "distinct (map fst (insert_desc xs v n))" by simp
  moreover have "fst x \<notin> fst ` set (insert_desc xs v n)"
    using Cons.prems by (auto simp: set_insert_desc)
  ultimately show ?case using Cons.prems by (auto simp: insert_desc_def)
qed

lemma sorted_desc_insert_desc:
  assumes "sorted_desc items" "snd v = n"
  shows "sorted_desc (insert_desc items v n)"
  using assms unfolding sorted_desc_def insert_desc_def
proof (induction items)
  case Nil
  then show ?case by simp
next
  case (Cons x xs)
  then show ?case by (auto dest: set_takeWhileD set_dropWhileD)
qed


lemma take_sorted_bound:
  assumes "sorted_desc xs" "e \<in> set xs" "e \<notin> set (take k xs)"
  shows "length (take k xs) = k \<and> (\<forall>e'\<in>set (take k xs). snd e \<le> snd e')"
proof -
  have split: "xs = take k xs @ drop k xs" by simp
  from assms(2,3) have d: "e \<in> set (drop k xs)"
    by (metis split set_append UnE)
  then have "drop k xs \<noteq> []" by auto
  then have len: "length (take k xs) = k" by simp
  from assms(1) have "sorted_wrt (\<lambda>a b. snd b \<le> snd a) (take k xs @ drop k xs)"
    by (simp add: sorted_desc_def)
  then have "\<forall>x\<in>set (take k xs). \<forall>y\<in>set (drop k xs). snd y \<le> snd x"
    unfolding sorted_wrt_append by blast
  with d len show ?thesis by blast
qed

lemma take_sorted_witness:
  assumes "sorted_desc xs" "distinct xs" "k < length xs" "v \<in> set (take k xs)"
  shows "\<exists>x\<in>set xs. x \<noteq> v \<and> snd x \<le> snd v"
proof -
  from assms(3) have d: "xs ! k \<in> set (drop k xs)"
    by (metis Cons_nth_drop_Suc list.set_intros(1))
  from assms(2) have "distinct (take k xs @ drop k xs)" by simp
  then have "set (take k xs) \<inter> set (drop k xs) = {}" unfolding distinct_append by blast
  with d assms(4) have ne: "xs ! k \<noteq> v" by auto
  from assms(1) have "sorted_wrt (\<lambda>a b. snd b \<le> snd a) (take k xs @ drop k xs)"
    by (simp add: sorted_desc_def)
  then have "\<forall>x\<in>set (take k xs). \<forall>y\<in>set (drop k xs). snd y \<le> snd x"
    unfolding sorted_wrt_append by blast
  with d assms(4) have "snd (xs ! k) \<le> snd v" by blast
  with ne assms(3) show ?thesis by (metis nth_mem)
qed

lemma length_lrem_distinct:
  assumes "distinct xs"
  shows "length (lrem xs v) = (if v \<in> set xs then length xs - 1 else length xs)"
proof -
  have "lrem xs v = removeAll v xs" by (simp add: lrem_def removeAll_filter_not_eq) metis
  also have "\<dots> = remove1 v xs" using assms by (simp add: distinct_remove1_removeAll)
  finally show ?thesis by (simp add: length_remove1)
qed

lemma record_win_keeps_top_inv:
  assumes inv: "top_inv (cnt, lst)" and colon: "CHR '':'' \<notin> set p"
  shows "top_inv (record_win (cnt, lst) p)"
proof -
  define n where "n = incr cnt p"
  define items where "items = lrem lst (p, n - 1)"
  define full where "full = insert_desc items (p, n) n"
  define res where "res = take 10 full"
  define cnt' where "cnt' = cnt(p \<mapsto> n)"
  from inv have sorted: "sorted_desc lst" and len: "length lst \<le> 10"
    and dist: "distinct (map fst lst)"
    and cur: "\<And>e. e \<in> set lst \<Longrightarrow> cnt (fst e) = Some (snd e)"
    and nocolon: "\<And>e. e \<in> set lst \<Longrightarrow> CHR '':'' \<notin> set (fst e)"
    and absent: "\<And>q s. cnt q = Some s \<Longrightarrow> 0 < s \<Longrightarrow> q \<notin> fst ` set lst \<Longrightarrow>
                   length lst = 10 \<and> (\<forall>e\<in>set lst. s \<le> snd e)"
    unfolding top_inv_def by auto
  have step: "record_win (cnt, lst) p = (cnt', res)"
    using update_top_entries_no_colon[of lst p n] nocolon
    by (simp add: record_win_def Let_def n_def items_def full_def res_def cnt'_def)
  have sub: "set items \<subseteq> set lst" by (auto simp: items_def lrem_def)
  have A: "p \<notin> fst ` set items"
  proof
    assume "p \<in> fst ` set items"
    then obtain t where t: "(p, t) \<in> set items" by auto
    with sub cur[of "(p, t)"] have "cnt p = Some t" by auto
    then have "n = t + 1" by (simp add: n_def incr_def)
    with t show False by (simp add: items_def lrem_def)
  qed
  have sorted_items: "sorted_desc items"
    using sorted by (simp add: items_def lrem_def sorted_desc_def sorted_wrt_filter)
  have dist_items: "distinct (map fst items)"
    using dist by (simp add: items_def lrem_def distinct_map_filter)
  from dist have dist_lst: "distinct lst" by (simp add: distinct_map)
  have len_items: "length items = (if (p, n - 1) \<in> set lst then length lst - 1 else length lst)"
    unfolding items_def using dist_lst by (rule length_lrem_distinct)
  have set_full: "set full = insert (p, n) (set items)"
    by (simp add: full_def set_insert_desc)
  have len_full: "length full = Suc (length items)"
    by (simp add: full_def length_insert_desc)
  have sorted_full: "sorted_desc full"
    unfolding full_def using sorted_items by (rule sorted_desc_insert_desc) simp
  have dist_full: "distinct (map fst full)"
    unfolding full_def using dist_items A by (intro distinct_insert_desc) auto
  then have dist_full': "distinct full" by (simp add: distinct_map)
  have sub_res: "set res \<subseteq> set full" unfolding res_def by (rule set_take_subset)
  have 1: "sorted_desc res"
    using sorted_full by (simp add: res_def sorted_desc_def sorted_wrt_take)
  have 2: "length res \<le> 10" by (simp add: res_def)
  have 3: "distinct (map fst res)"
    using dist_full by (simp add: res_def take_map[symmetric])
  have 4: "cnt' (fst e) = Some (snd e) \<and> CHR '':'' \<notin> set (fst e)" if "e \<in> set res" for e
  proof (cases "e = (p, n)")
    case True
    then show ?thesis using colon by (simp add: cnt'_def)
  next
    case False
    with that sub_res set_full have e: "e \<in> set items" by auto
    with A have "fst e \<noteq> p" by auto
    with e sub cur[of e] nocolon[of e] show ?thesis by (auto simp: cnt'_def)
  qed
  have full_len_res: "length res = 10" if "length lst = 10"
    using that len_items len_full by (auto simp: res_def split: if_splits)
  have 5: "length res = 10 \<and> (\<forall>e\<in>set res. s \<le> snd e)"
    if q: "cnt' q = Some s" "q \<notin> fst ` set res" and spos: "0 < s" for q s
  proof (cases "(q, s) \<in> set full")
    case True
    moreover from q(2) have "(q, s) \<notin> set (take 10 full)" by (force simp: res_def)
    ultimately show ?thesis
      using take_sorted_bound[OF sorted_full, of "(q, s)" 10] by (simp add: res_def)
  next
    case False
    then have qp: "q \<noteq> p" using q(1) set_full by (auto simp: cnt'_def)
    with q(1) have cq: "cnt q = Some s" by (simp add: cnt'_def)
    have "q \<notin> fst ` set lst"
    proof
      assume "q \<in> fst ` set lst"
      then obtain t where t: "(q, t) \<in> set lst" by auto
      with cur[of "(q, t)"] cq have "t = s" by simp
      with t qp have "(q, s) \<in> set items" by (simp add: items_def lrem_def)
      with False set_full show False by simp
    qed
    from absent[OF cq spos this] have l10: "length lst = 10" and low: "\<And>e. e \<in> set lst \<Longrightarrow> s \<le> snd e"
      by auto
    have "s \<le> snd e" if e: "e \<in> set res" for e
    proof (cases "e = (p, n)")
      case False
      with e sub_res set_full have "e \<in> set items" by auto
      with sub have "e \<in> set lst" by auto
      then show ?thesis by (rule low)
    next
      case True
      show ?thesis
      proof (cases "(p, n - 1) \<in> set lst")
        case True
        from low[OF this] \<open>e = (p, n)\<close> show ?thesis by simp
      next
        case False
        with len_items len_full l10 have "10 < length full" by simp
        from take_sorted_witness[OF sorted_full dist_full' this, of e] e
        obtain x where x: "x \<in> set full" "x \<noteq> e" "snd x \<le> snd e" by (auto simp: res_def)
        with True set_full sub have "x \<in> set lst" by auto
        from low[OF this] x(3) show ?thesis by simp
      qed
    qed
    with full_len_res[OF l10] show ?thesis by blast
  qed
  from 5 have 6: "\<forall>q s. cnt' q = Some s \<and> 0 < s \<and> q \<notin> fst ` set res \<longrightarrow>
      length res = 10 \<and> (\<forall>e\<in>set res. s \<le> snd e)" by blast
  from 4 have 7: "\<forall>e\<in>set res. cnt' (fst e) = Some (snd e) \<and> CHR '':'' \<notin> set (fst e)" by blast
  from 1 2 3 6 7 show ?thesis unfolding step top_inv_def fst_conv snd_conv by blast
qed


lemma top_inv_fresh: "all_zero registered \<Longrightarrow> top_inv (registered, [])"
  by (auto simp: top_inv_def sorted_desc_def all_zero_def)

lemma foldl_record_win_top_inv:
  assumes "\<forall>p\<in>set ps. CHR '':'' \<notin> set p" "top_inv st"
  shows "top_inv (foldl record_win st ps)"
  using assms
proof (induction ps arbitrary: st)
  case Nil
  then show ?case by simp
next
  case (Cons p ps)
  from Cons.prems have "top_inv (record_win st p)"
    using record_win_keeps_top_inv[of "fst st" "snd st" p] by simp
  with Cons show ?case by simp
qed

lemma foldl_record_win_counts:
  "fst (foldl record_win st ps) q
     = (if q \<in> set ps then Some (counter_value (fst st) q + int (count_list ps q)) else fst st q)"
proof (induction ps arbitrary: st)
  case Nil
  then show ?case by simp
next
  case (Cons p ps)
  have "fst (record_win st p) = (fst st)(p \<mapsto> counter_value (fst st) p + 1)"
    by (simp add: record_win_def Let_def incr_def counter_value_def split: option.splits)
  then show ?case using Cons.IH[of "record_win st p"]
    by (auto simp: counter_value_def)
qed

text \<open>
  The list when no id holds a colon. Take any sequence of recorded wins (each an increment of
  the player's counter followed at once by the update of the list with the new count) by
  players whose ids hold no colon, on an empty list and counters that are 0 where they
  exist. Then the list is sorted non-increasing by score and has at most ten entries; no
  player has two entries and every entry carries the current count of its player, so no
  earlier entry of a player survives a change of its score; a player who has won and has
  no entry is not above any entry of the list, and the list has ten entries then; and a
  player who has won and whose count fewer than ten other players reach or exceed is on
  the list.
\<close>

theorem leaderboard_invariant:
  assumes "\<forall>p\<in>set ps. CHR '':'' \<notin> set p" and "all_zero registered"
  shows "sorted_desc (snd (record_wins registered ps))
       \<and> length (snd (record_wins registered ps)) \<le> 10
       \<and> distinct (map fst (snd (record_wins registered ps)))
       \<and> (\<forall>p. fst (record_wins registered ps) p
                = (if p \<in> set ps then Some (int (count_list ps p)) else registered p))
       \<and> (\<forall>e\<in>set (snd (record_wins registered ps)).
             fst (record_wins registered ps) (fst e) = Some (snd e))
       \<and> (\<forall>p s. fst (record_wins registered ps) p = Some s \<and> 0 < s
                 \<and> p \<notin> fst ` set (snd (record_wins registered ps)) \<longrightarrow>
             length (snd (record_wins registered ps)) = 10
             \<and> (\<forall>e\<in>set (snd (record_wins registered ps)). s \<le> snd e))
       \<and> (\<forall>p s. fst (record_wins registered ps) p = Some s \<and> 0 < s
                 \<and> card {q. q \<noteq> p \<and> (\<exists>t. fst (record_wins registered ps) q = Some t \<and> s \<le> t)} < 10 \<longrightarrow>
             (p, s) \<in> set (snd (record_wins registered ps)))"
proof -
  define cnt where "cnt = fst (record_wins registered ps)"
  define lst where "lst = snd (record_wins registered ps)"
  have inv: "top_inv (cnt, lst)"
    using foldl_record_win_top_inv[OF assms(1) top_inv_fresh[OF assms(2)]]
    by (simp add: cnt_def lst_def record_wins_def)
  have zero: "counter_value registered p = 0" for p
    using assms(2) by (auto simp: counter_value_def all_zero_def split: option.splits)
  have counts: "cnt p = (if p \<in> set ps then Some (int (count_list ps p)) else registered p)" for p
    using foldl_record_win_counts[of "(registered, [])" ps p]
    by (simp add: cnt_def record_wins_def zero)
  from inv have sorted: "sorted_desc lst" and len: "length lst \<le> 10"
    and dist: "distinct (map fst lst)"
    and cur: "\<And>e. e \<in> set lst \<Longrightarrow> cnt (fst e) = Some (snd e)"
    and absent: "\<And>q s. cnt q = Some s \<Longrightarrow> 0 < s \<Longrightarrow> q \<notin> fst ` set lst \<Longrightarrow>
                   length lst = 10 \<and> (\<forall>e\<in>set lst. s \<le> snd e)"
    unfolding top_inv_def by auto
  have top: "(p, s) \<in> set lst"
    if ps: "cnt p = Some s" and spos: "0 < s"
      and few: "card {q. q \<noteq> p \<and> (\<exists>t. cnt q = Some t \<and> s \<le> t)} < 10" for p s
  proof (rule ccontr)
    assume no: "(p, s) \<notin> set lst"
    have "p \<notin> fst ` set lst"
    proof
      assume "p \<in> fst ` set lst"
      then obtain t where t: "(p, t) \<in> set lst" by auto
      from cur[OF t] ps have "t = s" by simp
      with t no show False by simp
    qed
    from absent[OF ps spos this] have l10: "length lst = 10"
      and low: "\<And>e. e \<in> set lst \<Longrightarrow> s \<le> snd e"
      by auto
    let ?S = "{q. q \<noteq> p \<and> (\<exists>t. cnt q = Some t \<and> s \<le> t)}"
    have "?S \<subseteq> set ps"
    proof
      fix q assume "q \<in> ?S"
      then obtain t where t: "cnt q = Some t" "s \<le> t" by auto
      show "q \<in> set ps"
      proof (rule ccontr)
        assume "q \<notin> set ps"
        with t(1) counts[of q] have "registered q = Some t" by simp
        with assms(2) have "t = 0" by (simp add: all_zero_def)
        with t(2) spos show False by simp
      qed
    qed
    then have fin: "finite ?S" by (rule finite_subset) simp
    have "fst ` set lst \<subseteq> ?S"
    proof
      fix q assume "q \<in> fst ` set lst"
      then obtain t where t: "(q, t) \<in> set lst" by auto
      with \<open>p \<notin> fst ` set lst\<close> have "q \<noteq> p" by force
      with cur[OF t] low[OF t] show "q \<in> ?S" by simp
    qed
    then have "card (fst ` set lst) \<le> card ?S" using fin by (intro card_mono)
    moreover have "card (fst ` set lst) = 10"
      using dist l10 distinct_card[of "map fst lst"] by simp
    ultimately show False using few by simp
  qed
  from sorted len dist counts cur absent top show ?thesis
    unfolding cnt_def[symmetric] lst_def[symmetric] by blast
qed

lemma record_wins_eleven:
  "snd (record_wins some_registered eleven_winners)
     = [(''p11'', 1), (''p10'', 1), (''p09'', 1), (''p08'', 1), (''p07'', 1),
        (''p06'', 1), (''p05'', 1), (''p04'', 1), (''p03'', 1), (''p02'', 1)]"
  by (simp add: record_wins_def eleven_winners_def some_registered_def record_win_def
        update_top_entries_def lrem_def rpush_def ltrim0_def split_entry_def incr_def Let_def)

lemma some_registered_zero: "all_zero some_registered"
  by (simp add: all_zero_def some_registered_def)

theorem leaderboard_invariant_witness:
  "length (snd (record_wins some_registered eleven_winners)) = 10
   \<and> sorted_desc (snd (record_wins some_registered eleven_winners))
   \<and> fst (record_wins some_registered eleven_winners) ''p01'' = Some 1
   \<and> fst (record_wins some_registered eleven_winners) ''p12'' = Some 0
   \<and> fst (record_wins some_registered eleven_winners) ''p13'' = None"
proof -
  have h: "\<forall>p\<in>set eleven_winners. CHR '':'' \<notin> set p"
    by (simp add: eleven_winners_def)
  have "''p01'' \<in> set eleven_winners" "''p12'' \<notin> set eleven_winners"
    "''p13'' \<notin> set eleven_winners" "count_list eleven_winners ''p01'' = 1"
    "some_registered ''p12'' = Some 0" "some_registered ''p13'' = None"
    by (simp_all add: eleven_winners_def some_registered_def)
  with leaderboard_invariant[OF h some_registered_zero] show ?thesis
    by (simp add: record_wins_eleven)
qed

text \<open>
  Claim C1: after every sequence of leaderboard updates, each made right after the
  increment of the player's counter, the list is sorted, has at most ten entries and
  holds every player of the true top ten once, with its current score. The code breaks
  this for a player id that holds a colon. Reading the entries back,
  \<^verbatim>\<open>_, score = item.split(":")\<close> unpacks the entry \<^verbatim>\<open>a:b:1\<close> into three parts and raises
  \<^verbatim>\<open>ValueError\<close>: after one win of \<^verbatim>\<open>a:b\<close> and two wins of \<^verbatim>\<open>c\<close> the list is
  \<^verbatim>\<open>[a:b:1]\<close>, without the player c whose score 2 is the highest. The same through
  \<^verbatim>\<open>add_game_record\<close>: after the game that \<^verbatim>\<open>a:b\<close> won, the record of a game that c wins
  ends in \<^verbatim>\<open>ValueError\<close>, with the win of c counted and the list unchanged.
\<close>

theorem colon_in_player_id_blocks_the_list:
  "snd (record_wins Map.empty [''a:b'', ''c'', ''c'']) = [(''a:b'', 1)]
   \<and> fst (record_wins Map.empty [''a:b'', ''c'', ''c'']) ''c'' = Some 2
   \<and> fst (update_top_entries [(''a:b'', 1)] ''c'' 1) = Raise ValueError
   \<and> analytics_top_wins scenario_colon_store = [(''a:b'', 1)]
   \<and> fst (the (add_game_record rejecting_loads scenario_scan [''f2''] scenario_colon_store
                  scenario_colon_second)) = Raise ValueError
   \<and> analytics_top_wins
        (snd (the (add_game_record rejecting_loads scenario_scan [''f2''] scenario_colon_store
                     scenario_colon_second))) = [(''a:b'', 1)]
   \<and> player_wins
        (snd (the (add_game_record rejecting_loads scenario_scan [''f2''] scenario_colon_store
                     scenario_colon_second))) ''c'' = Some 1"
proof -
  have 1: "snd (record_wins Map.empty [''a:b'', ''c'', ''c'']) = [(''a:b'', 1)]
     \<and> fst (record_wins Map.empty [''a:b'', ''c'', ''c'']) ''c'' = Some 2
     \<and> fst (update_top_entries [(''a:b'', 1)] ''c'' 1) = Raise ValueError"
    by (simp add: record_wins_def record_win_def update_top_entries_def
          lrem_def rpush_def ltrim0_def split_entry_def incr_def Let_def)
  have 2: "analytics_top_wins scenario_colon_store = [(''a:b'', 1)]
   \<and> fst (the (add_game_record rejecting_loads scenario_scan [''f2''] scenario_colon_store
                  scenario_colon_second)) = Raise ValueError
   \<and> analytics_top_wins
        (snd (the (add_game_record rejecting_loads scenario_scan [''f2''] scenario_colon_store
                     scenario_colon_second))) = [(''a:b'', 1)]
   \<and> player_wins
        (snd (the (add_game_record rejecting_loads scenario_scan [''f2''] scenario_colon_store
                     scenario_colon_second))) ''c'' = Some 1"
    by (simp add: scenario_colon_store_def add_game_record_def scenario_colon_first_def
          scenario_colon_second_def empty_store_def store_step_defs Let_def upt_rec)
  from 1 2 show ?thesis by (intro conjI) (elim conjE, assumption)+
qed

end
